theory Spec2Isabelle
  imports Complex_Main
begin

section \<open>JavaScript numbers\<close>

text \<open>
  The amounts of \<^verbatim>\<open>src/pages/api/btcpay/webhook.ts\<close> are JavaScript numbers: IEEE 754
  binary64 values. A finite double is modelled by the rational it denotes (the sign of
  zero is not tracked: no operation of the handler tells \<^verbatim>\<open>-0\<close> from \<^verbatim>\<open>0\<close>), and every
  arithmetic operation is the exact operation followed by rounding to the nearest double,
  ties to the even significand. The model covers finite values: \<^verbatim>\<open>NaN\<close> and the
  infinities (a non-numeric string of the payment processor, a product beyond
  \<open>2 ^ 1024\<close>) are outside it.
\<close>

function bit_length :: "int \<Rightarrow> int" where
  "bit_length n = (if n \<le> 0 then 0 else 1 + bit_length (n div 2))"
  by pat_completeness auto
termination
  by (relation "measure nat") auto

definition pow2 :: "int \<Rightarrow> rat" where
  "pow2 e = (if 0 \<le> e then 2 ^ nat e else 1 / 2 ^ nat (- e))"

definition ilog2 :: "rat \<Rightarrow> int" where
  \<comment> \<open>\<open>\<lfloor>log\<^sub>2 \<bar>x\<bar>\<rfloor>\<close> for \<open>x \<noteq> 0\<close>: the difference of the bit lengths of numerator and
      denominator, or one less.\<close>
  "ilog2 x = (let (p, q) = quotient_of \<bar>x\<bar>;
                  d = bit_length p - bit_length q
              in if pow2 d \<le> \<bar>x\<bar> then d else d - 1)"

definition round_even :: "rat \<Rightarrow> int" where
  "round_even q = (let f = \<lfloor>q\<rfloor>; r = q - of_int f
                   in if r < 1 / 2 then f
                      else if 1 / 2 < r then f + 1
                      else if even f then f else f + 1)"

definition fl :: "rat \<Rightarrow> rat" where
  \<comment> \<open>The double nearest to \<open>x\<close>: 53 significant bits, the spacing of the subnormals
      (\<open>2 ^ - 1074\<close>) below \<open>2 ^ - 1022\<close>.\<close>
  "fl x = (if x = 0 then 0
           else let e = max (ilog2 x - 52) (- 1074)
                in of_int (round_even (x / pow2 e)) * pow2 e)"

definition js_mul :: "rat \<Rightarrow> rat \<Rightarrow> rat" where
  \<comment> \<open>\<^verbatim>\<open>a * b\<close>\<close>
  "js_mul a b = fl (a * b)"

definition toFixed2 :: "rat \<Rightarrow> rat" where
  \<comment> \<open>\<^verbatim>\<open>Number(x.toFixed(2))\<close>. \<^verbatim>\<open>toFixed(2)\<close> prints the integer \<open>n\<close> for which \<open>n / 100\<close> is
      nearest to \<open>\<bar>x\<bar>\<close> (the larger one on a tie) as a decimal with two fraction digits,
      after the sign; \<^verbatim>\<open>Number\<close> reads the decimal back as the nearest double. From
      \<open>10 ^ 21\<close> on \<^verbatim>\<open>toFixed\<close> prints \<^verbatim>\<open>String(x)\<close>, which reads back as \<open>x\<close>.\<close>
  "toFixed2 x =
     (if 10 ^ 21 \<le> \<bar>x\<bar> then x
      else let n = \<lfloor>\<bar>x\<bar> * 100 + 1 / 2\<rfloor>
           in if x < 0 then - fl (of_int n / 100) else fl (of_int n / 100))"

function dec_length :: "int \<Rightarrow> int" where
  "dec_length n = (if n \<le> 0 then 0 else 1 + dec_length (n div 10))"
  by pat_completeness auto
termination
  by (relation "measure nat") auto

definition pow10 :: "int \<Rightarrow> rat" where
  "pow10 e = (if 0 \<le> e then 10 ^ nat e else 1 / 10 ^ nat (- e))"

definition ilog10 :: "rat \<Rightarrow> int" where
  \<comment> \<open>\<open>\<lfloor>log\<^sub>1\<^sub>0 \<bar>x\<bar>\<rfloor>\<close> for \<open>x \<noteq> 0\<close>: the difference of the decimal lengths of numerator and
      denominator, or one less.\<close>
  "ilog10 x = (let (p, q) = quotient_of \<bar>x\<bar>;
                   d = dec_length p - dec_length q
               in if pow10 d \<le> \<bar>x\<bar> then d else d - 1)"

definition leading_digit :: "rat \<Rightarrow> int" where
  \<comment> \<open>The first digit \<^verbatim>\<open>String(x)\<close> prints for a double \<open>x > 0\<close>. \<^verbatim>\<open>String\<close> prints the shortest
      decimal that reads back as \<open>x\<close> (the one nearest to \<open>x\<close> when several are as short, the
      even one on a tie). Its first digit is the first digit \<open>l\<close> of \<open>x\<close> itself, unless the
      one-digit decimal above \<open>x\<close> reads back as \<open>x\<close> and the one-digit decimal below does not,
      or is farther: then the decimal above is printed (\<^verbatim>\<open>1e+23\<close> for the double below
      \<open>10 ^ 23\<close>).\<close>
  "leading_digit x =
     (let p = pow10 (ilog10 x); l = \<lfloor>x / p\<rfloor>;
          lo = of_int l * p; hi = of_int (l + 1) * p
      in if fl hi = x
            \<and> (if fl lo = x then hi - x < x - lo \<or> (hi - x = x - lo \<and> odd l) else True)
         then (if l = 9 then 1 else l + 1)
         else l)"

definition parseInt_String :: "rat \<Rightarrow> int" where
  \<comment> \<open>\<^verbatim>\<open>parseInt(String(x))\<close> for a double \<open>x\<close>. For \<open>x = 0\<close> and for \<open>\<bar>x\<bar> < 10 ^ 21\<close> from the double
      nearest to \<open>10 ^ - 6\<close> on, \<^verbatim>\<open>String\<close> prints \<open>x\<close> in positional notation (the shortest
      decimal that reads back as \<open>x\<close>) and \<^verbatim>\<open>parseInt\<close> reads the digits before the point:
      \<open>x\<close> truncated toward zero. Outside that range \<^verbatim>\<open>String\<close> prints the first digit, the
      other digits after a point, and an exponent (\<^verbatim>\<open>1.5e+21\<close>, \<^verbatim>\<open>1e-7\<close>), and \<^verbatim>\<open>parseInt\<close>
      reads the first digit only.\<close>
  "parseInt_String x =
     (if x = 0 \<or> (fl (1 / 10 ^ 6) \<le> \<bar>x\<bar> \<and> \<bar>x\<bar> < 10 ^ 21)
      then (if x < 0 then - \<lfloor>- x\<rfloor> else \<lfloor>x\<rfloor>)
      else if x < 0 then - leading_digit (- x) else leading_digit x)"

definition positional :: "rat \<Rightarrow> bool" where
  \<comment> \<open>A range in which \<^verbatim>\<open>String\<close> prints positionally.\<close>
  "positional x = (x = 0 \<or> (1 / 10 ^ 6 \<le> \<bar>x\<bar> \<and> \<bar>x\<bar> < 10 ^ 21))"

section \<open>Data model\<close>

text \<open>
  \<^verbatim>\<open>DonationMetadata\<close>, the payment methods of an invoice and the two tables are declared
  outside the handler's file; their fields are those the handler reads and writes. The
  flags of the metadata are strings, compared with \<^verbatim>\<open>'true'\<close> and \<^verbatim>\<open>'false'\<close>; an absent
  \<^verbatim>\<open>userId\<close> is \<open>None\<close>.
\<close>

record metadata =
  staticGeneratedForApi :: string
  projectName :: string
  projectSlug :: string
  fundSlug :: string
  userId :: "string option"
  givePointsBack :: string
  isMembership :: string

record btcpay_body =
  event_type :: string
  invoiceId :: string
  body_metadata :: metadata
  paymentMethod :: string
  payment_value :: rat

record payment_method =
  pm_cryptoCode :: string
  rate :: rat
  amount :: rat

text \<open>The \<^verbatim>\<open>data\<close> object of \<^verbatim>\<open>prisma.donation.create\<close>; \<open>None\<close> is a field left out or null.\<close>

record donation_data =
  d_userId :: "string option"
  btcPayInvoiceId :: string
  d_projectName :: string
  d_projectSlug :: string
  d_fundSlug :: string
  cryptoCode :: string
  grossCryptoAmount :: rat
  grossFiatAmount :: rat
  netCryptoAmount :: rat
  netFiatAmount :: rat
  pointsAdded :: "int option"
  membershipExpiresAt :: "nat option"

record donation =
  d_id :: nat
  d_data :: donation_data

definition donation_pointsAdded :: "donation \<Rightarrow> int" where
  \<comment> \<open>Modelled from the spec: the schema of the donation table is not in src/; the spec
      gives the column \<^verbatim>\<open>pointsAdded\<close> the default 0.\<close>
  "donation_pointsAdded d = (case pointsAdded (d_data d) of None \<Rightarrow> 0 | Some p \<Rightarrow> p)"

record point_history =
  donationId :: nat
  ph_userId :: string
  ph_fundSlug :: string
  ph_projectSlug :: string
  ph_pointsAdded :: int
  pointsBalance :: int

text \<open>
  The store: both tables in creation order (\<^verbatim>\<open>createdAt\<close> ascending), and the identifier
  the next donation gets.
\<close>

record db =
  donations :: "donation list"
  pointHistory :: "point_history list"
  next_id :: nat

definition donation_create :: "donation_data \<Rightarrow> db \<Rightarrow> donation \<times> db" where
  "donation_create dat s =
     (let d = \<lparr>d_id = next_id s, d_data = dat\<rparr>
      in (d, s\<lparr>donations := donations s @ [d], next_id := Suc (next_id s)\<rparr>))"

definition findFirst :: "string \<Rightarrow> string \<Rightarrow> string \<Rightarrow> db \<Rightarrow> point_history option" where
  \<comment> \<open>\<^verbatim>\<open>prisma.pointHistory.findFirst\<close> with the handler's \<^verbatim>\<open>where\<close> and
      \<^verbatim>\<open>orderBy: { createdAt: 'desc' }\<close>.\<close>
  "findFirst u f p s =
     (case filter (\<lambda>e. ph_userId e = u \<and> ph_fundSlug e = f \<and> ph_projectSlug e = p
                          \<and> 0 < ph_pointsAdded e) (rev (pointHistory s)) of
        [] \<Rightarrow> None
      | e # _ \<Rightarrow> Some e)"

definition pointHistory_create :: "point_history \<Rightarrow> db \<Rightarrow> db" where
  "pointHistory_create e s = s\<lparr>pointHistory := pointHistory s @ [e]\<rparr>"

section \<open>One payment method of a settled invoice\<close>

text \<open>
  The callback of \<^verbatim>\<open>paymentMethods.map\<close> (lines 104 to 164) awaits three operations of the
  store, one after the other. \<open>leg_start\<close> is the callback up to its first \<^verbatim>\<open>await\<close>;
  a \<open>leg_state\<close> says which operation the callback is suspended at, with the local
  variables it still needs; \<open>leg_step\<close> completes that operation and runs the callback
  to its next \<^verbatim>\<open>await\<close>.
\<close>

datatype leg_state =
    Create_donation donation_data int
  | Find_last string nat int
  | Create_history string nat int int
  | Resolved
  | Rejected

definition leg_start :: "btcpay_body \<Rightarrow> nat \<Rightarrow> payment_method \<Rightarrow> leg_state" where
  "leg_start b expiry pm =
     (let m = body_metadata b;
          shouldGivePointsBack = (givePointsBack m = ''true'');
          cryptoRate = rate pm;
          gross_crypto = amount pm;
          gross_fiat = js_mul gross_crypto cryptoRate;
          net_crypto = (if shouldGivePointsBack then js_mul gross_crypto (fl (9 / 10))
                        else gross_crypto);
          net_fiat = js_mul net_crypto cryptoRate
      in if gross_crypto = 0 then Resolved
         else let points = (if shouldGivePointsBack
                            then parseInt_String (js_mul (toFixed2 gross_fiat) 100)
                            else 0)
              in Create_donation
                   \<lparr>d_userId = userId m,
                    btcPayInvoiceId = invoiceId b,
                    d_projectName = projectName m,
                    d_projectSlug = projectSlug m,
                    d_fundSlug = fundSlug m,
                    cryptoCode = pm_cryptoCode pm,
                    grossCryptoAmount = toFixed2 gross_crypto,
                    grossFiatAmount = toFixed2 gross_fiat,
                    netCryptoAmount = toFixed2 net_crypto,
                    netFiatAmount = toFixed2 net_fiat,
                    pointsAdded = Some points,
                    membershipExpiresAt =
                      (if isMembership m = ''true'' then Some expiry else None)\<rparr>
                   points)"

fun leg_step :: "metadata \<Rightarrow> leg_state \<Rightarrow> db \<Rightarrow> leg_state \<times> db" where
  "leg_step m (Create_donation dat points) s =
     (let (d, s') = donation_create dat s
      in (case userId m of
            None \<Rightarrow> (Resolved, s')
          | Some u \<Rightarrow>
              if givePointsBack m = ''true'' \<and> u \<noteq> [] then (Find_last u (d_id d) points, s')
              else (Resolved, s')))"
| "leg_step m (Find_last u did points) s =
     (let currentBalance =
            (case findFirst u (fundSlug m) (projectSlug m) s of
               None \<Rightarrow> 0
             | Some lastPointHistory \<Rightarrow> pointsBalance lastPointHistory)
      in (Create_history u did points currentBalance, s))"
| "leg_step m (Create_history u did points currentBalance) s =
     (Resolved,
      pointHistory_create
        \<lparr>donationId = did,
         ph_userId = u,
         ph_fundSlug = fundSlug m,
         ph_projectSlug = projectSlug m,
         ph_pointsAdded = points,
         pointsBalance = currentBalance + points\<rparr> s)"
| "leg_step m Resolved s = (Resolved, s)"
| "leg_step m Rejected s = (Rejected, s)"

fun leg_fail :: "leg_state \<Rightarrow> leg_state" where
  "leg_fail Resolved = Resolved"
| "leg_fail st = Rejected"

text \<open>
  \<^verbatim>\<open>Promise.all\<close> starts every callback and waits. The operations the callbacks await
  complete in an order the handler does not control: an \<open>action\<close> names the leg whose
  pending operation completes next, or fails (the operation throws, nothing is written and
  the callback's promise rejects). The other callbacks keep running after a rejection.
\<close>

datatype action = Complete nat | Fail nat

fun run_legs :: "metadata \<Rightarrow> action list \<Rightarrow> leg_state list \<Rightarrow> db \<Rightarrow> leg_state list \<times> db" where
  "run_legs m [] sts s = (sts, s)"
| "run_legs m (Complete i # acts) sts s =
     (if i < length sts
      then let (st, s') = leg_step m (sts ! i) s in run_legs m acts (sts[i := st]) s'
      else run_legs m acts sts s)"
| "run_legs m (Fail i # acts) sts s =
     (if i < length sts then run_legs m acts (sts[i := leg_fail (sts ! i)]) s
      else run_legs m acts sts s)"

section \<open>The handler\<close>

datatype header_value = Absent | Single string | Multiple "string list"

record request =
  req_method :: string
  btcpay_sig :: header_value

text \<open>
  What the handler obtains from its collaborators while it runs: the hex digest
  \<^verbatim>\<open>crypto.createHmac('sha256', secret).update(rawBody).digest('hex')\<close>; the value of
  \<^verbatim>\<open>JSON.parse\<close> on the raw body (\<open>None\<close> when it throws; a value of the declared type
  \<^verbatim>\<open>BtcpayBody\<close> otherwise); the answers of the payment
  processor (\<open>None\<close> when the request fails), with \<^verbatim>\<open>Number\<close> applied to each rate and
  amount; the date \<^verbatim>\<open>dayjs().add(1, 'year').toDate()\<close>; and the order in which the
  operations of the store complete.
\<close>

record env =
  expectedSigHash :: string
  parsed :: "btcpay_body option"
  rates :: "rat list option"
  paymentMethods :: "payment_method list option"
  expiry :: nat
  schedule :: "action list"

datatype response_body = Json_success bool | Plain string

text \<open>
  \<open>Threw\<close>: an exception leaves the handler (no response of its own). \<open>Awaiting\<close>: the
  schedule ended while the handler was still suspended at an \<^verbatim>\<open>await\<close>. A response is its
  status and body; the \<^verbatim>\<open>Allow\<close> header of the 405 response and the log line of a failed
  signature check are left out.
\<close>

datatype outcome = Responded nat response_body | Threw | Awaiting

datatype flow = Return outcome db | Continue db

fun split_on :: "char \<Rightarrow> string \<Rightarrow> string list" where
  "split_on c [] = [[]]"
| "split_on c (x # xs) =
     (if x = c then [] # split_on c xs
      else (case split_on c xs of [] \<Rightarrow> [[x]] | y # ys \<Rightarrow> (x # y) # ys))"

definition incomingSigHash :: "string \<Rightarrow> string option" where
  \<comment> \<open>\<^verbatim>\<open>sig.split('=')[1]\<close>; \<open>None\<close> is \<^verbatim>\<open>undefined\<close>.\<close>
  "incomingSigHash sig = (case split_on (CHR ''='') sig of _ # h # _ \<Rightarrow> Some h | _ \<Rightarrow> None)"

definition payment_settled :: "btcpay_body \<Rightarrow> env \<Rightarrow> db \<Rightarrow> flow" where
  \<comment> \<open>Lines 60 to 90.\<close>
  "payment_settled b ev s =
     (if staticGeneratedForApi (body_metadata b) = ''false''
      then Return (Responded 200 (Json_success True)) s
      else let code = (if paymentMethod b = ''BTC-OnChain'' then ''BTC'' else ''XMR'')
           in (case rates ev of
                 None \<Rightarrow> Return Threw s
               | Some [] \<Rightarrow> Return Threw s
               | Some (cryptoRate # _) \<Rightarrow>
                   let cryptoAmount = payment_value b;
                       fiatAmount = toFixed2 (js_mul cryptoAmount cryptoRate)
                   in (case schedule ev of
                         [] \<Rightarrow> Return Awaiting s
                       | Fail _ # _ \<Rightarrow> Return Threw s
                       | Complete _ # _ \<Rightarrow>
                           Continue (snd (donation_create
                             \<lparr>d_userId = None,
                              btcPayInvoiceId = invoiceId b,
                              d_projectName = projectName (body_metadata b),
                              d_projectSlug = projectSlug (body_metadata b),
                              d_fundSlug = fundSlug (body_metadata b),
                              cryptoCode = code,
                              grossCryptoAmount = cryptoAmount,
                              grossFiatAmount = fiatAmount,
                              netCryptoAmount = cryptoAmount,
                              netFiatAmount = fiatAmount,
                              pointsAdded = None,
                              membershipExpiresAt = None\<rparr> s)))))"

definition promise_all :: "leg_state list \<Rightarrow> db \<Rightarrow> flow" where
  "promise_all sts s =
     (if Rejected \<in> set sts then Return Threw s
      else if list_all (\<lambda>st. st = Resolved) sts then Continue s
      else Return Awaiting s)"

definition invoice_settled :: "btcpay_body \<Rightarrow> env \<Rightarrow> db \<Rightarrow> flow" where
  \<comment> \<open>Lines 92 to 166.\<close>
  "invoice_settled b ev s =
     (if staticGeneratedForApi (body_metadata b) = ''true''
      then Return (Responded 200 (Json_success True)) s
      else (case paymentMethods ev of
              None \<Rightarrow> Return Threw s
            | Some pms \<Rightarrow>
                let (sts, s') = run_legs (body_metadata b) (schedule ev)
                                  (map (leg_start b (expiry ev)) pms) s
                in promise_all sts s'))"

definition process_event :: "btcpay_body \<Rightarrow> env \<Rightarrow> db \<Rightarrow> outcome \<times> db" where
  \<comment> \<open>Lines 60 to 168: the two blocks, one after the other, and the final response.\<close>
  "process_event b ev s =
     (case (if event_type b = ''InvoicePaymentSettled'' then payment_settled b ev s
            else Continue s) of
        Return out s1 \<Rightarrow> (out, s1)
      | Continue s1 \<Rightarrow>
          (case (if event_type b = ''InvoiceSettled'' then invoice_settled b ev s1
                 else Continue s1) of
             Return out s2 \<Rightarrow> (out, s2)
           | Continue s2 \<Rightarrow> (Responded 200 (Json_success True), s2)))"

definition handleBtcpayWebhook :: "request \<Rightarrow> env \<Rightarrow> db \<Rightarrow> outcome \<times> db" where
  "handleBtcpayWebhook req ev s =
     (if req_method req \<noteq> ''POST''
      then (Responded 405 (Plain (''Method '' @ req_method req @ '' Not Allowed'')), s)
      else (case btcpay_sig req of
              Single sig \<Rightarrow>
                (case parsed ev of
                   None \<Rightarrow> (Threw, s)
                 | Some b \<Rightarrow>
                     if Some (expectedSigHash ev) \<noteq> incomingSigHash sig
                     then (Responded 400 (Json_success False), s)
                     else process_event b ev s)
            | _ \<Rightarrow> (Responded 400 (Json_success False), s)))"

section \<open>The signature header as the specification reads it\<close>

text \<open>
  The specification compares the digest with the portion of the header that follows its
  first \<^verbatim>\<open>=\<close>; \<open>None\<close> when the header has no \<^verbatim>\<open>=\<close>.
\<close>

definition sig_after_first_eq :: "string \<Rightarrow> string option" where
  "sig_after_first_eq sig =
     (if CHR ''='' \<in> set sig then Some (tl (dropWhile (\<lambda>c. c \<noteq> CHR ''='') sig)) else None)"

section \<open>An invariant of the legs\<close>

text \<open>
  \<open>points_due\<close> is the condition of line 139, \<^verbatim>\<open>shouldGivePointsBack && body.metadata.userId\<close>:
  the flag is \<^verbatim>\<open>'true'\<close> and the \<^verbatim>\<open>userId\<close> is a non-empty string.
\<close>

definition points_due :: "metadata \<Rightarrow> bool" where
  "points_due m =
     (givePointsBack m = ''true'' \<and> (case userId m of None \<Rightarrow> False | Some u \<Rightarrow> u \<noteq> []))"

text \<open>A points-history entry belongs to a donation: it carries the donation's identifier,
  points, user and scope.\<close>

definition entry_of :: "donation \<Rightarrow> point_history \<Rightarrow> bool" where
  "entry_of d en =
     (d_id d = donationId en \<and> pointsAdded (d_data d) = Some (ph_pointsAdded en)
      \<and> d_userId (d_data d) = Some (ph_userId en)
      \<and> d_fundSlug (d_data d) = ph_fundSlug en
      \<and> d_projectSlug (d_data d) = ph_projectSlug en)"

text \<open>
  What is known of a leg at each \<^verbatim>\<open>await\<close>, given the donations \<open>ds\<close> written since the
  handler started: a leg that still has an operation pending has a nonzero amount; before its
  donation is written it holds the data \<open>leg_start\<close> computed; after, its donation is
  among \<open>ds\<close> and points are due.
\<close>

fun leg_inv :: "btcpay_body \<Rightarrow> nat \<Rightarrow> donation list \<Rightarrow> payment_method \<Rightarrow> leg_state \<Rightarrow> bool" where
  "leg_inv b e ds pm (Create_donation dat p) =
     (amount pm \<noteq> 0 \<and> leg_start b e pm = Create_donation dat p)"
| "leg_inv b e ds pm (Find_last u did p) =
     (amount pm \<noteq> 0 \<and> points_due (body_metadata b)
      \<and> (\<exists>d \<in> set ds. d_id d = did \<and> pointsAdded (d_data d) = Some p
            \<and> d_userId (d_data d) = Some u
            \<and> d_fundSlug (d_data d) = fundSlug (body_metadata b)
            \<and> d_projectSlug (d_data d) = projectSlug (body_metadata b)))"
| "leg_inv b e ds pm (Create_history u did p bal) =
     (amount pm \<noteq> 0 \<and> points_due (body_metadata b)
      \<and> (\<exists>d \<in> set ds. d_id d = did \<and> pointsAdded (d_data d) = Some p
            \<and> d_userId (d_data d) = Some u
            \<and> d_fundSlug (d_data d) = fundSlug (body_metadata b)
            \<and> d_projectSlug (d_data d) = projectSlug (body_metadata b)))"
| "leg_inv b e ds pm Resolved = True"
| "leg_inv b e ds pm Rejected = True"

text \<open>
  The number of donations written lies between the number of legs known to have written
  theirs (\<open>made_lo\<close>) and the number of legs that may have (\<open>made_hi\<close>: a rejected leg
  may have failed before or after its donation); likewise for the points-history entries
  (\<open>wrote_lo\<close>, \<open>wrote_hi\<close>) when points are due.
\<close>

fun made_lo :: "payment_method \<times> leg_state \<Rightarrow> bool" where
  "made_lo (pm, Find_last u did p) = True"
| "made_lo (pm, Create_history u did p bal) = True"
| "made_lo (pm, Resolved) = (amount pm \<noteq> 0)"
| "made_lo (pm, Create_donation dat p) = False"
| "made_lo (pm, Rejected) = False"

fun made_hi :: "payment_method \<times> leg_state \<Rightarrow> bool" where
  "made_hi (pm, Create_donation dat p) = False"
| "made_hi (pm, Resolved) = (amount pm \<noteq> 0)"
| "made_hi (pm, Find_last u did p) = True"
| "made_hi (pm, Create_history u did p bal) = True"
| "made_hi (pm, Rejected) = True"

fun wrote_lo :: "payment_method \<times> leg_state \<Rightarrow> bool" where
  "wrote_lo (pm, Resolved) = (amount pm \<noteq> 0)"
| "wrote_lo (pm, Create_donation dat p) = False"
| "wrote_lo (pm, Find_last u did p) = False"
| "wrote_lo (pm, Create_history u did p bal) = False"
| "wrote_lo (pm, Rejected) = False"

fun wrote_hi :: "payment_method \<times> leg_state \<Rightarrow> bool" where
  "wrote_hi (pm, Resolved) = (amount pm \<noteq> 0)"
| "wrote_hi (pm, Rejected) = True"
| "wrote_hi (pm, Create_donation dat p) = False"
| "wrote_hi (pm, Find_last u did p) = False"
| "wrote_hi (pm, Create_history u did p bal) = False"

definition count_where :: "('a \<Rightarrow> bool) \<Rightarrow> 'a list \<Rightarrow> nat" where
  "count_where P xs = length (filter P xs)"

definition legs_inv ::
  "btcpay_body \<Rightarrow> nat \<Rightarrow> payment_method list \<Rightarrow> db \<Rightarrow> leg_state list \<Rightarrow> db \<Rightarrow> bool" where
  "legs_inv b e pms s0 sts s =
     (\<exists>ds es.
        donations s = donations s0 @ ds \<and> pointHistory s = pointHistory s0 @ es
        \<and> list_all2 (leg_inv b e ds) pms sts
        \<and> (\<forall>d \<in> set ds. \<exists>pm \<in> set pms. amount pm \<noteq> 0
               \<and> (\<exists>p. leg_start b e pm = Create_donation (d_data d) p))
        \<and> (\<forall>en \<in> set es. \<exists>d \<in> set ds. entry_of d en)
        \<and> count_where made_lo (zip pms sts) \<le> length ds
        \<and> length ds \<le> count_where made_hi (zip pms sts)
        \<and> (if points_due (body_metadata b)
            then count_where wrote_lo (zip pms sts) \<le> length es
                 \<and> length es \<le> count_where wrote_hi (zip pms sts)
            else es = []))"

text \<open>
  The identifier a leg holds between the write of its donation and the write of its points
  entry. The identifiers held lie among those given out since the handler started
  (\<open>lo\<close> up to \<open>hi\<close>), no two legs hold the same, and none is that of an entry written.
\<close>

fun leg_id :: "leg_state \<Rightarrow> nat option" where
  "leg_id (Find_last u did p) = Some did"
| "leg_id (Create_history u did p bal) = Some did"
| "leg_id (Create_donation dat p) = None"
| "leg_id Resolved = None"
| "leg_id Rejected = None"

definition held_apart :: "nat option list \<Rightarrow> nat set \<Rightarrow> nat \<Rightarrow> nat \<Rightarrow> bool" where
  "held_apart ids used lo hi =
     (\<forall>i < length ids. \<forall>did. ids ! i = Some did \<longrightarrow>
        lo \<le> did \<and> did < hi \<and> did \<notin> used
        \<and> (\<forall>j < length ids. j \<noteq> i \<longrightarrow> ids ! j \<noteq> Some did))"

definition ids_inv :: "db \<Rightarrow> leg_state list \<Rightarrow> db \<Rightarrow> bool" where
  "ids_inv s0 sts s =
     (\<exists>ds es.
        donations s = donations s0 @ ds \<and> pointHistory s = pointHistory s0 @ es
        \<and> next_id s0 \<le> next_id s
        \<and> map d_id ds = [next_id s0..<next_id s]
        \<and> distinct (map donationId es)
        \<and> donationId ` set es \<subseteq> {next_id s0..<next_id s}
        \<and> held_apart (map leg_id sts) (donationId ` set es) (next_id s0) (next_id s))"

text \<open>
  Which leg wrote which donation: \<open>who ! k\<close> is the index of the payment method whose leg
  wrote the donation \<open>ds ! k\<close>. Such a leg is past its first \<^verbatim>\<open>await\<close>; while it has an
  operation pending it holds the identifier of its donation; once resolved, its donation has
  a points entry when points are due. A leg that wrote no donation is waiting for the write,
  or was rejected, or has the amount zero.
\<close>

fun after_donation :: "bool \<Rightarrow> nat \<Rightarrow> nat set \<Rightarrow> leg_state \<Rightarrow> bool" where
  "after_donation due did used (Create_donation dat p) = False"
| "after_donation due did used (Find_last u did' p) = (did' = did)"
| "after_donation due did used (Create_history u did' p bal) = (did' = did)"
| "after_donation due did used Resolved = (if due then did \<in> used else True)"
| "after_donation due did used Rejected = True"

fun before_donation :: "btcpay_body \<Rightarrow> nat \<Rightarrow> payment_method \<Rightarrow> leg_state \<Rightarrow> bool" where
  "before_donation b e pm (Create_donation dat p) =
     (amount pm \<noteq> 0 \<and> leg_start b e pm = Create_donation dat p)"
| "before_donation b e pm Resolved = (amount pm = 0)"
| "before_donation b e pm Rejected = True"
| "before_donation b e pm (Find_last u did p) = False"
| "before_donation b e pm (Create_history u did p bal) = False"

definition paired ::
  "btcpay_body \<Rightarrow> nat \<Rightarrow> payment_method list \<Rightarrow> nat list \<Rightarrow> donation list
     \<Rightarrow> point_history list \<Rightarrow> leg_state list \<Rightarrow> bool" where
  "paired b e pms who ds es sts =
     (length who = length ds \<and> distinct who \<and> length sts = length pms
      \<and> (\<forall>k < length who. who ! k < length pms \<and> amount (pms ! (who ! k)) \<noteq> 0
            \<and> (\<exists>p. leg_start b e (pms ! (who ! k)) = Create_donation (d_data (ds ! k)) p)
            \<and> after_donation (points_due (body_metadata b)) (d_id (ds ! k))
                 (donationId ` set es) (sts ! (who ! k)))
      \<and> (\<forall>i < length pms. i \<notin> set who \<longrightarrow> before_donation b e (pms ! i) (sts ! i)))"

definition pair_inv ::
  "btcpay_body \<Rightarrow> nat \<Rightarrow> payment_method list \<Rightarrow> db \<Rightarrow> leg_state list \<Rightarrow> db \<Rightarrow> bool" where
  "pair_inv b e pms s0 sts s =
     (\<exists>who ds es. donations s = donations s0 @ ds \<and> pointHistory s = pointHistory s0 @ es
        \<and> paired b e pms who ds es sts)"

section \<open>Schedules\<close>

text \<open>The schedule in which the operations of each leg complete before the next leg's.\<close>

definition sequential :: "nat \<Rightarrow> action list" where
  "sequential n = concat (map (\<lambda>i. [Complete i, Complete i, Complete i]) [0..<n])"

section \<open>Sample inputs\<close>

text \<open>
  A verified request, an event whose donor asked for points and is identified, the
  answers of the collaborators, and an empty store; theorems at concrete inputs vary the
  event type, the payment methods and the schedule.
\<close>

definition sample_metadata :: metadata where
  "sample_metadata =
     \<lparr>staticGeneratedForApi = ''false'', projectName = ''Project'', projectSlug = ''project'',
      fundSlug = ''fund'', userId = Some ''user'', givePointsBack = ''true'',
      isMembership = ''true''\<rparr>"

definition sample_body :: "string \<Rightarrow> btcpay_body" where
  "sample_body ty =
     \<lparr>event_type = ty, invoiceId = ''invoice'', body_metadata = sample_metadata,
      paymentMethod = ''BTC-OnChain'', payment_value = 1 / 4\<rparr>"

definition sample_request :: request where
  "sample_request = \<lparr>req_method = ''POST'', btcpay_sig = Single ''sha256=3fa9''\<rparr>"

definition sample_env :: "btcpay_body \<Rightarrow> payment_method list \<Rightarrow> action list \<Rightarrow> env" where
  "sample_env b pms acts =
     \<lparr>expectedSigHash = ''3fa9'', parsed = Some b, rates = Some [30000],
      paymentMethods = Some pms, expiry = 365, schedule = acts\<rparr>"

definition empty_db :: db where
  "empty_db = \<lparr>donations = [], pointHistory = [], next_id = 0\<rparr>"

section \<open>The header's second field\<close>

lemma split_on_unfold:
  "split_on c xs = takeWhile (\<lambda>x. x \<noteq> c) xs #
     (if c \<in> set xs then split_on c (tl (dropWhile (\<lambda>x. x \<noteq> c) xs)) else [])"
  by (induction xs) (auto split: list.splits)

text \<open>\<^verbatim>\<open>sig.split('=')[1]\<close> is the part of the header between its first \<^verbatim>\<open>=\<close> and the next.\<close>

lemma incomingSigHash_segment:
  "incomingSigHash sig =
     (case sig_after_first_eq sig of
        None \<Rightarrow> None
      | Some rest \<Rightarrow> Some (takeWhile (\<lambda>c. c \<noteq> CHR ''='') rest))"
proof (cases "CHR ''='' \<in> set sig")
  case True
  then show ?thesis
    unfolding incomingSigHash_def sig_after_first_eq_def
    apply (subst split_on_unfold)
    apply (simp)
    apply (subst split_on_unfold)
    apply simp
    done
next
  case False
  then show ?thesis
    unfolding incomingSigHash_def sig_after_first_eq_def
    apply (subst split_on_unfold)
    apply simp
    done
qed

section \<open>The invariant holds along every schedule\<close>

lemma count_update:
  "i < length xs \<Longrightarrow>
     count_where P (xs[i := y]) + (if P (xs ! i) then 1 else 0) = count_where P xs + (if P y then 1 else 0)"
  unfolding count_where_def
proof (induction xs arbitrary: i)
  case Nil
  then show ?case by simp
next
  case (Cons x xs)
  then show ?case by (cases i) auto
qed

lemma zip_update_right:
  "zip xs (ys[i := y]) = (zip xs ys)[i := (xs ! i, y)]"
  by (metis list_update_id zip_update)

lemma count_zip_update:
  assumes "i < length sts" and "length pms = length sts"
  shows "count_where P (zip pms (sts[i := st])) + (if P (pms ! i, sts ! i) then 1 else 0)
         = count_where P (zip pms sts) + (if P (pms ! i, st) then 1 else 0)"
proof -
  from assms have "i < length (zip pms sts)" by simp
  from count_update [OF this, of P "(pms ! i, st)"] assms show ?thesis
    by (simp add: zip_update_right)
qed

lemma leg_start_cases:
  "leg_start b e pm = Resolved \<and> amount pm = 0
   \<or> (\<exists>dat p. leg_start b e pm = Create_donation dat p \<and> amount pm \<noteq> 0
        \<and> d_userId dat = userId (body_metadata b) \<and> pointsAdded dat = Some p
        \<and> d_fundSlug dat = fundSlug (body_metadata b)
        \<and> d_projectSlug dat = projectSlug (body_metadata b))"
  by (simp add: leg_start_def Let_def)

lemma leg_start_not_Rejected: "leg_start b e pm \<noteq> Rejected" "Rejected \<noteq> leg_start b e pm"
  by (simp_all add: leg_start_def Let_def)

lemma leg_inv_initial: "leg_inv b e [] pm (leg_start b e pm)"
  using leg_start_cases [of b e pm] by auto

lemma made_initial: "\<not> made_lo (pm, leg_start b e pm)" "\<not> made_hi (pm, leg_start b e pm)"
  "\<not> wrote_lo (pm, leg_start b e pm)" "\<not> wrote_hi (pm, leg_start b e pm)"
  using leg_start_cases [of b e pm] by auto

lemma count_initial:
  "count_where made_hi (zip pms (map (leg_start b e) pms)) = 0"
  "count_where wrote_hi (zip pms (map (leg_start b e) pms)) = 0"
  "count_where made_lo (zip pms (map (leg_start b e) pms)) = 0"
  "count_where wrote_lo (zip pms (map (leg_start b e) pms)) = 0"
  unfolding count_where_def by (induction pms) (simp_all add: made_initial)

lemma legs_inv_initial: "legs_inv b e pms s (map (leg_start b e) pms) s"
  unfolding legs_inv_def
  apply (rule exI [of _ "[]"])
  apply (rule exI [of _ "[]"])
  apply (simp add: count_initial list_all2_conv_all_nth leg_inv_initial)
  done

lemma leg_inv_mono: "leg_inv b e ds pm st \<Longrightarrow> leg_inv b e (ds @ ds') pm st"
  by (cases st) auto

lemma list_all2_leg_inv_mono:
  "list_all2 (leg_inv b e ds) pms sts \<Longrightarrow> list_all2 (leg_inv b e (ds @ ds')) pms sts"
  by (erule list_all2_mono) (rule leg_inv_mono)

lemma list_all2_update_right:
  "list_all2 P xs ys \<Longrightarrow> i < length ys \<Longrightarrow> P (xs ! i) y \<Longrightarrow> list_all2 P xs (ys[i := y])"
  by (metis list_all2_update_cong list_update_id)

lemma leg_step_Create_donation:
  "leg_step m (Create_donation dat p) s =
     ((if points_due m then Find_last (the (userId m)) (next_id s) p else Resolved),
      s\<lparr>donations := donations s @ [\<lparr>d_id = next_id s, d_data = dat\<rparr>],
        next_id := Suc (next_id s)\<rparr>)"
  by (auto simp: points_due_def donation_create_def Let_def split: option.splits)

lemma donations_leg_step_Create_donation:
  "donations (snd (leg_step m (Create_donation dat p) s))
     = donations s @ [\<lparr>d_id = next_id s, d_data = dat\<rparr>]"
  unfolding leg_step_Create_donation by simp

lemma points_due_userId: "points_due m \<Longrightarrow> userId m = Some (the (userId m))"
  by (auto simp: points_due_def split: option.splits)

lemma legs_inv_fail:
  assumes inv: "legs_inv b e pms s0 sts s" and i: "i < length sts"
  shows "legs_inv b e pms s0 (sts[i := leg_fail (sts ! i)]) s"
proof -
  from inv obtain ds es where
    d: "donations s = donations s0 @ ds" and h: "pointHistory s = pointHistory s0 @ es"
    and legs: "list_all2 (leg_inv b e ds) pms sts"
    and prov: "\<forall>d \<in> set ds. \<exists>pm \<in> set pms. amount pm \<noteq> 0
               \<and> (\<exists>p. leg_start b e pm = Create_donation (d_data d) p)"
    and link: "\<forall>en \<in> set es. \<exists>d \<in> set ds. entry_of d en"
    and lo: "count_where made_lo (zip pms sts) \<le> length ds"
    and hi: "length ds \<le> count_where made_hi (zip pms sts)"
    and pts: "if points_due (body_metadata b)
            then count_where wrote_lo (zip pms sts) \<le> length es
                 \<and> length es \<le> count_where wrote_hi (zip pms sts)
            else es = []"
    unfolding legs_inv_def by blast
  from legs have len: "length pms = length sts" by (rule list_all2_lengthD)
  with i have iz: "i < length (zip pms sts)" by simp
  let ?st = "leg_fail (sts ! i)"
  have nth: "zip pms sts ! i = (pms ! i, sts ! i)" using i len by simp
  have legs': "list_all2 (leg_inv b e ds) pms (sts[i := ?st])"
    using legs i by (intro list_all2_update_right) (cases "sts ! i"; simp)+
  have mlo: "made_lo (pms ! i, ?st) \<longrightarrow> made_lo (pms ! i, sts ! i)"
    by (cases "sts ! i") auto
  have mhi: "made_hi (pms ! i, sts ! i) \<longrightarrow> made_hi (pms ! i, ?st)"
    by (cases "sts ! i") auto
  have wlo: "wrote_lo (pms ! i, ?st) \<longrightarrow> wrote_lo (pms ! i, sts ! i)"
    by (cases "sts ! i") auto
  have whi: "wrote_hi (pms ! i, sts ! i) \<longrightarrow> wrote_hi (pms ! i, ?st)"
    by (cases "sts ! i") auto
  have c1: "count_where made_lo (zip pms (sts[i := ?st])) \<le> count_where made_lo (zip pms sts)"
    using count_update [OF iz, of made_lo "(pms ! i, ?st)"] mlo nth
    by (auto simp: zip_update_right split: if_splits)
  have c2: "count_where made_hi (zip pms sts) \<le> count_where made_hi (zip pms (sts[i := ?st]))"
    using count_update [OF iz, of made_hi "(pms ! i, ?st)"] mhi nth
    by (auto simp: zip_update_right split: if_splits)
  have c3: "count_where wrote_lo (zip pms (sts[i := ?st])) \<le> count_where wrote_lo (zip pms sts)"
    using count_update [OF iz, of wrote_lo "(pms ! i, ?st)"] wlo nth
    by (auto simp: zip_update_right split: if_splits)
  have c4: "count_where wrote_hi (zip pms sts) \<le> count_where wrote_hi (zip pms (sts[i := ?st]))"
    using count_update [OF iz, of wrote_hi "(pms ! i, ?st)"] whi nth
    by (auto simp: zip_update_right split: if_splits)
  have pts': "if points_due (body_metadata b)
            then count_where wrote_lo (zip pms (sts[i := ?st])) \<le> length es
                 \<and> length es \<le> count_where wrote_hi (zip pms (sts[i := ?st]))
            else es = []"
    using pts c3 c4 by (auto split: if_splits)
  show ?thesis
    unfolding legs_inv_def
    apply (rule exI [of _ ds])
    apply (rule exI [of _ es])
    using d h legs' prov link lo hi c1 c2 pts' by auto
qed

lemma legs_inv_step:
  assumes inv: "legs_inv b e pms s0 sts s" and i: "i < length sts"
    and step: "leg_step (body_metadata b) (sts ! i) s = (st, s')"
  shows "legs_inv b e pms s0 (sts[i := st]) s'"
proof -
  let ?m = "body_metadata b"
  from inv obtain ds es where
    d: "donations s = donations s0 @ ds" and h: "pointHistory s = pointHistory s0 @ es"
    and legs: "list_all2 (leg_inv b e ds) pms sts"
    and prov: "\<forall>d \<in> set ds. \<exists>pm \<in> set pms. amount pm \<noteq> 0
               \<and> (\<exists>p. leg_start b e pm = Create_donation (d_data d) p)"
    and link: "\<forall>en \<in> set es. \<exists>d \<in> set ds. entry_of d en"
    and lo: "count_where made_lo (zip pms sts) \<le> length ds"
    and hi: "length ds \<le> count_where made_hi (zip pms sts)"
    and pts: "if points_due ?m
            then count_where wrote_lo (zip pms sts) \<le> length es
                 \<and> length es \<le> count_where wrote_hi (zip pms sts)
            else es = []"
    unfolding legs_inv_def by blast
  from legs have len: "length pms = length sts" by (rule list_all2_lengthD)
  from legs i have li: "leg_inv b e ds (pms ! i) (sts ! i)" by (simp add: list_all2_nthD2)
  from i len have mem: "pms ! i \<in> set pms" by simp
  note cz = count_zip_update [OF i len]
  show ?thesis
  proof (cases "sts ! i")
    case (Create_donation dat p)
    let ?d = "\<lparr>d_id = next_id s, d_data = dat\<rparr>"
    from li Create_donation have nz: "amount (pms ! i) \<noteq> 0"
      and ls: "leg_start b e (pms ! i) = Create_donation dat p" by simp_all
    from leg_start_cases [of b e "pms ! i"] ls
    have dat: "d_userId dat = userId ?m" "pointsAdded dat = Some p"
      "d_fundSlug dat = fundSlug ?m" "d_projectSlug dat = projectSlug ?m" by auto
    from step Create_donation
    have "leg_step ?m (Create_donation dat p) s = (st, s')" by (simp only:)
    then have st: "st = (if points_due ?m then Find_last (the (userId ?m)) (next_id s) p else Resolved)"
      and s': "s' = s\<lparr>donations := donations s @ [?d], next_id := Suc (next_id s)\<rparr>"
      unfolding leg_step_Create_donation by simp_all
    have d': "donations s' = donations s0 @ (ds @ [?d])" using d s' by simp
    have h': "pointHistory s' = pointHistory s0 @ es" using h s' by simp
    have new: "leg_inv b e (ds @ [?d]) (pms ! i) st"
      using st nz dat points_due_userId [of ?m] by auto
    have legs': "list_all2 (leg_inv b e (ds @ [?d])) pms (sts[i := st])"
      using list_all2_leg_inv_mono [OF legs] i new by (intro list_all2_update_right)
    have prov': "\<forall>d \<in> set (ds @ [?d]). \<exists>pm \<in> set pms. amount pm \<noteq> 0
               \<and> (\<exists>p. leg_start b e pm = Create_donation (d_data d) p)"
      using prov mem nz ls by auto
    have link': "\<forall>en \<in> set es. \<exists>d \<in> set (ds @ [?d]). entry_of d en"
      using link by auto
    have lo': "count_where made_lo (zip pms (sts[i := st])) \<le> length (ds @ [?d])"
      using cz [of made_lo st] lo Create_donation st nz by (auto split: if_splits)
    have hi': "length (ds @ [?d]) \<le> count_where made_hi (zip pms (sts[i := st]))"
      using cz [of made_hi st] hi Create_donation st nz by (auto split: if_splits)
    have pts': "if points_due ?m
            then count_where wrote_lo (zip pms (sts[i := st])) \<le> length es
                 \<and> length es \<le> count_where wrote_hi (zip pms (sts[i := st]))
            else es = []"
      using cz [of wrote_lo st] cz [of wrote_hi st] pts Create_donation st
      by (auto split: if_splits)
    show ?thesis
      unfolding legs_inv_def
      apply (rule exI [of _ "ds @ [?d]"])
      apply (rule exI [of _ es])
      using d' h' legs' prov' link' lo' hi' pts' by simp
  next
    case (Find_last u did p)
    from step Find_last obtain bal where st: "st = Create_history u did p bal" and s': "s' = s"
      by (auto simp: Let_def)
    have new: "leg_inv b e ds (pms ! i) st" using li Find_last st by simp
    have legs': "list_all2 (leg_inv b e ds) pms (sts[i := st])"
      using legs i new by (intro list_all2_update_right)
    have lo': "count_where made_lo (zip pms (sts[i := st])) \<le> length ds"
      using cz [of made_lo st] lo Find_last st by (auto split: if_splits)
    have hi': "length ds \<le> count_where made_hi (zip pms (sts[i := st]))"
      using cz [of made_hi st] hi Find_last st by (auto split: if_splits)
    have pts': "if points_due ?m
            then count_where wrote_lo (zip pms (sts[i := st])) \<le> length es
                 \<and> length es \<le> count_where wrote_hi (zip pms (sts[i := st]))
            else es = []"
      using cz [of wrote_lo st] cz [of wrote_hi st] pts Find_last st
      by (auto split: if_splits)
    show ?thesis
      unfolding legs_inv_def
      apply (rule exI [of _ ds])
      apply (rule exI [of _ es])
      using d h s' legs' prov link lo' hi' pts' by simp
  next
    case (Create_history u did p bal)
    let ?en = "\<lparr>donationId = did, ph_userId = u, ph_fundSlug = fundSlug ?m,
                ph_projectSlug = projectSlug ?m, ph_pointsAdded = p,
                pointsBalance = bal + p\<rparr>"
    from step Create_history have st: "st = Resolved"
      and s': "s' = s\<lparr>pointHistory := pointHistory s @ [?en]\<rparr>"
      by (simp_all add: pointHistory_create_def)
    from li Create_history have nz: "amount (pms ! i) \<noteq> 0" and due: "points_due ?m"
      and ex: "\<exists>d \<in> set ds. entry_of d ?en"
      by (auto simp: entry_of_def)
    have d': "donations s' = donations s0 @ ds" using d s' by simp
    have h': "pointHistory s' = pointHistory s0 @ (es @ [?en])" using h s' by simp
    have legs': "list_all2 (leg_inv b e ds) pms (sts[i := st])"
      using legs i st by (intro list_all2_update_right) simp_all
    have link': "\<forall>en \<in> set (es @ [?en]). \<exists>d \<in> set ds. entry_of d en"
      using link ex by auto
    have lo': "count_where made_lo (zip pms (sts[i := st])) \<le> length ds"
      using cz [of made_lo st] lo Create_history st nz by (auto split: if_splits)
    have hi': "length ds \<le> count_where made_hi (zip pms (sts[i := st]))"
      using cz [of made_hi st] hi Create_history st nz by (auto split: if_splits)
    have pts': "if points_due ?m
            then count_where wrote_lo (zip pms (sts[i := st])) \<le> length (es @ [?en])
                 \<and> length (es @ [?en]) \<le> count_where wrote_hi (zip pms (sts[i := st]))
            else es @ [?en] = []"
      using cz [of wrote_lo st] cz [of wrote_hi st] pts Create_history st nz due
      by (auto split: if_splits)
    show ?thesis
      unfolding legs_inv_def
      apply (rule exI [of _ ds])
      apply (rule exI [of _ "es @ [?en]"])
      using d' h' legs' prov link' lo' hi' pts' by simp
  next
    case Resolved
    with step have "st = sts ! i" "s' = s" by simp_all
    with inv show ?thesis by simp
  next
    case Rejected
    with step have "st = sts ! i" "s' = s" by simp_all
    with inv show ?thesis by simp
  qed
qed

lemma run_legs_inv:
  "legs_inv b e pms s0 sts s \<Longrightarrow> run_legs (body_metadata b) acts sts s = (sts', s')
     \<Longrightarrow> legs_inv b e pms s0 sts' s'"
proof (induction acts arbitrary: sts s)
  case Nil
  then show ?case by simp
next
  case (Cons a acts)
  show ?case
  proof (cases a)
    case (Complete i)
    show ?thesis
    proof (cases "i < length sts")
      case True
      obtain st s1 where step: "leg_step (body_metadata b) (sts ! i) s = (st, s1)"
        by (cases "leg_step (body_metadata b) (sts ! i) s")
      from Cons.prems(2) Complete True step
      have "run_legs (body_metadata b) acts (sts[i := st]) s1 = (sts', s')" by simp
      with legs_inv_step [OF Cons.prems(1) True step] show ?thesis by (rule Cons.IH)
    next
      case False
      with Cons Complete show ?thesis by simp
    qed
  next
    case (Fail i)
    show ?thesis
    proof (cases "i < length sts")
      case True
      from Cons.prems(2) Fail True
      have "run_legs (body_metadata b) acts (sts[i := leg_fail (sts ! i)]) s = (sts', s')"
        by simp
      with legs_inv_fail [OF Cons.prems(1) True] show ?thesis by (rule Cons.IH)
    next
      case False
      with Cons Fail show ?thesis by simp
    qed
  qed
qed

lemma count_all_resolved:
  "length pms = length sts \<Longrightarrow> list_all (\<lambda>st. st = Resolved) sts \<Longrightarrow>
     count_where made_lo (zip pms sts) = length (filter (\<lambda>pm. amount pm \<noteq> 0) pms)
     \<and> count_where made_hi (zip pms sts) = length (filter (\<lambda>pm. amount pm \<noteq> 0) pms)
     \<and> count_where wrote_lo (zip pms sts) = length (filter (\<lambda>pm. amount pm \<noteq> 0) pms)
     \<and> count_where wrote_hi (zip pms sts) = length (filter (\<lambda>pm. amount pm \<noteq> 0) pms)"
  unfolding count_where_def
  by (induction pms sts rule: list_induct2) auto

text \<open>A verified full-settlement event that is not skipped runs the legs of its payment
  methods along the schedule; the response follows from the states the legs end in.\<close>

lemma invoice_settled_handler:
  assumes "req_method req = ''POST''"
    and "btcpay_sig req = Single sig"
    and "parsed ev = Some b"
    and "incomingSigHash sig = Some (expectedSigHash ev)"
    and "event_type b = ''InvoiceSettled''"
    and "staticGeneratedForApi (body_metadata b) \<noteq> ''true''"
    and "paymentMethods ev = Some pms"
    and "handleBtcpayWebhook req ev s = (out, s')"
  shows "\<exists>sts. run_legs (body_metadata b) (schedule ev)
                 (map (leg_start b (expiry ev)) pms) s = (sts, s')
           \<and> length sts = length pms
           \<and> legs_inv b (expiry ev) pms s sts s'
           \<and> out = (if Rejected \<in> set sts then Threw
                    else if list_all (\<lambda>st. st = Resolved) sts
                    then Responded 200 (Json_success True) else Awaiting)"
proof -
  obtain sts s1 where run: "run_legs (body_metadata b) (schedule ev)
                 (map (leg_start b (expiry ev)) pms) s = (sts, s1)"
    by (cases "run_legs (body_metadata b) (schedule ev) (map (leg_start b (expiry ev)) pms) s")
  from run_legs_inv [OF legs_inv_initial run]
  have inv: "legs_inv b (expiry ev) pms s sts s1" .
  then have len: "length sts = length pms"
    unfolding legs_inv_def by (auto dest: list_all2_lengthD)
  from assms run have "s' = s1"
    and "out = (if Rejected \<in> set sts then Threw
                    else if list_all (\<lambda>st. st = Resolved) sts
                    then Responded 200 (Json_success True) else Awaiting)"
    by (auto simp: handleBtcpayWebhook_def process_event_def invoice_settled_def
        promise_all_def split: if_splits)
  with run inv len show ?thesis by blast
qed

section \<open>The sequential schedule completes\<close>

lemma run_legs_Complete:
  "i < length sts \<Longrightarrow>
     run_legs m (Complete i # acts) sts s
       = run_legs m acts (sts[i := fst (leg_step m (sts ! i) s)]) (snd (leg_step m (sts ! i) s))"
  by (simp add: case_prod_beta)

lemma leg_step_thrice:
  "st \<noteq> Rejected \<Longrightarrow>
     fst (leg_step m (fst (leg_step m (fst (leg_step m st s)) (snd (leg_step m st s))))
            (snd (leg_step m (fst (leg_step m st s)) (snd (leg_step m st s))))) = Resolved"
  by (cases st) (auto simp: Let_def case_prod_beta split: option.splits)

lemma three_steps:
  assumes "i < length sts" and "sts ! i \<noteq> Rejected"
  shows "\<exists>s'. run_legs m (Complete i # Complete i # Complete i # acts) sts s
              = run_legs m acts (sts[i := Resolved]) s'"
  using assms
  by (simp add: run_legs_Complete leg_step_thrice del: run_legs.simps) blast

lemma run_sequential_from:
  "k + n \<le> length sts \<Longrightarrow> Rejected \<notin> set sts \<Longrightarrow>
     \<exists>s'. run_legs m (concat (map (\<lambda>i. [Complete i, Complete i, Complete i]) [k..<k + n])) sts s
            = (take k sts @ replicate n Resolved @ drop (k + n) sts, s')"
proof (induction n arbitrary: k sts s)
  case 0
  then show ?case by simp
next
  case (Suc n)
  let ?f = "\<lambda>i. [Complete i, Complete i, Complete i]"
  from Suc.prems have k: "k < length sts" and nr: "sts ! k \<noteq> Rejected"
    by (auto simp: in_set_conv_nth)
  have up: "[k..<k + Suc n] = k # [Suc k..<Suc k + n]"
    by (simp add: upt_conv_Cons)
  from three_steps [OF k nr, of m "concat (map ?f [Suc k..<Suc k + n])" s]
  obtain s1 where s1: "run_legs m (concat (map ?f [k..<k + Suc n])) sts s
        = run_legs m (concat (map ?f [Suc k..<Suc k + n])) (sts[k := Resolved]) s1"
    unfolding up by auto
  have "Rejected \<notin> set (sts[k := Resolved])"
    using Suc.prems(2) set_update_subset_insert [of sts k Resolved] by auto
  moreover have "Suc k + n \<le> length (sts[k := Resolved])" using Suc.prems(1) by simp
  ultimately obtain s' where
    "run_legs m (concat (map ?f [Suc k..<Suc k + n])) (sts[k := Resolved]) s1
       = (take (Suc k) (sts[k := Resolved]) @ replicate n Resolved
            @ drop (Suc k + n) (sts[k := Resolved]), s')"
    using Suc.IH [of "Suc k" "sts[k := Resolved]" s1] by blast
  moreover have "take (Suc k) (sts[k := Resolved]) = take k sts @ [Resolved]"
    using k by (simp add: take_Suc_conv_app_nth)
  moreover have "drop (Suc k + n) (sts[k := Resolved]) = drop (k + Suc n) sts"
    by simp
  ultimately show ?case using s1 by (simp add: replicate_app_Cons_same)
qed

lemma run_sequential:
  "\<exists>s'. run_legs (body_metadata b) (sequential (length pms)) (map (leg_start b e) pms) s
          = (replicate (length pms) Resolved, s')"
proof -
  have "Rejected \<notin> set (map (leg_start b e) pms)"
    by (auto simp: leg_start_not_Rejected)
  from run_sequential_from [of 0 "length pms" "map (leg_start b e) pms", OF _ this]
  show ?thesis by (simp add: sequential_def)
qed

lemma sequential_responds:
  assumes "req_method req = ''POST''"
    and "btcpay_sig req = Single sig"
    and "parsed ev = Some b"
    and "incomingSigHash sig = Some (expectedSigHash ev)"
    and "event_type b = ''InvoiceSettled''"
    and "staticGeneratedForApi (body_metadata b) \<noteq> ''true''"
    and "paymentMethods ev = Some pms"
    and "schedule ev = sequential (length pms)"
  shows "fst (handleBtcpayWebhook req ev s) = Responded 200 (Json_success True)"
proof -
  from run_sequential [of b pms "expiry ev" s] obtain s' where
    "run_legs (body_metadata b) (sequential (length pms))
       (map (leg_start b (expiry ev)) pms) s = (replicate (length pms) Resolved, s')" by blast
  with assms show ?thesis
    by (simp add: handleBtcpayWebhook_def process_event_def invoice_settled_def
        promise_all_def list_all_iff)
qed

section \<open>Identifiers are given out once\<close>

lemma held_apartD:
  assumes "held_apart ids used lo hi" and "k < length ids" and "ids ! k = Some did"
  shows "lo \<le> did" and "did < hi" and "did \<notin> used"
    and "j < length ids \<Longrightarrow> j \<noteq> k \<Longrightarrow> ids ! j \<noteq> Some did"
  using assms unfolding held_apart_def by blast+

lemma held_apartI:
  assumes "\<And>k did. k < length ids \<Longrightarrow> ids ! k = Some did \<Longrightarrow>
             lo \<le> did \<and> did < hi \<and> did \<notin> used
             \<and> (\<forall>j < length ids. j \<noteq> k \<longrightarrow> ids ! j \<noteq> Some did)"
  shows "held_apart ids used lo hi"
  using assms unfolding held_apart_def by blast

lemma nth_update_Some:
  "k < length ids \<Longrightarrow> (ids[i := v]) ! k = Some did \<Longrightarrow>
     (k = i \<and> v = Some did) \<or> (k \<noteq> i \<and> ids ! k = Some did)"
  by (cases "k = i") simp_all

lemma held_apart_None:
  assumes h: "held_apart ids used lo hi"
  shows "held_apart (ids[i := None]) used lo hi"
proof (rule held_apartI)
  fix k did
  assume k: "k < length (ids[i := None])" and v: "ids[i := None] ! k = Some did"
  from k have k': "k < length ids" by simp
  from nth_update_Some [OF k' v] have ki: "k \<noteq> i" and old: "ids ! k = Some did" by auto
  have "ids[i := None] ! j \<noteq> Some did" if "j < length (ids[i := None])" "j \<noteq> k" for j
  proof
    assume "ids[i := None] ! j = Some did"
    with that(1) have "j \<noteq> i" "ids ! j = Some did"
      using nth_update_Some [of j ids i None did] by auto
    with held_apartD(4) [OF h k' old, of j] that show False by simp
  qed
  with held_apartD(1-3) [OF h k' old]
  show "lo \<le> did \<and> did < hi \<and> did \<notin> used
        \<and> (\<forall>j < length (ids[i := None]). j \<noteq> k \<longrightarrow> ids[i := None] ! j \<noteq> Some did)"
    by blast
qed

lemma held_apart_widen:
  "held_apart ids used lo hi \<Longrightarrow> held_apart ids used lo (Suc hi)"
  unfolding held_apart_def by (meson less_Suc_eq)

lemma held_apart_fresh:
  assumes h: "held_apart ids used lo hi" and i: "i < length ids" and le: "lo \<le> hi"
    and sub: "used \<subseteq> {lo..<hi}"
  shows "held_apart (ids[i := Some hi]) used lo (Suc hi)"
proof (rule held_apartI)
  fix k did
  assume k: "k < length (ids[i := Some hi])" and v: "ids[i := Some hi] ! k = Some did"
  from k have k': "k < length ids" by simp
  from nth_update_Some [OF k' v]
  consider "k = i" "did = hi" | "k \<noteq> i" "ids ! k = Some did" by auto
  then show "lo \<le> did \<and> did < Suc hi \<and> did \<notin> used
        \<and> (\<forall>j < length (ids[i := Some hi]). j \<noteq> k \<longrightarrow> ids[i := Some hi] ! j \<noteq> Some did)"
  proof cases
    case 1
    have "ids[i := Some hi] ! j \<noteq> Some did"
      if "j < length (ids[i := Some hi])" "j \<noteq> k" for j
    proof
      assume a: "ids[i := Some hi] ! j = Some did"
      from that 1 have "j \<noteq> i" "j < length ids" by simp_all
      with a have "ids ! j = Some hi" using 1 by simp
      from held_apartD(2) [OF h \<open>j < length ids\<close> this] show False by simp
    qed
    moreover have "hi \<notin> used" using sub by auto
    ultimately show ?thesis using 1 le by blast
  next
    case 2
    note o = held_apartD [OF h k' 2(2)]
    have "ids[i := Some hi] ! j \<noteq> Some did"
      if "j < length (ids[i := Some hi])" "j \<noteq> k" for j
    proof (cases "j = i")
      case True
      with i o(2) show ?thesis by simp
    next
      case False
      with that o(4) [of j] show ?thesis by simp
    qed
    with o(1-3) show ?thesis by (simp add: less_Suc_eq)
  qed
qed

lemma held_apart_use:
  assumes h: "held_apart ids used lo hi" and i: "i < length ids" and v: "ids ! i = Some did"
  shows "held_apart (ids[i := None]) (insert did used) lo hi"
proof (rule held_apartI)
  fix k did'
  assume k: "k < length (ids[i := None])" and v': "ids[i := None] ! k = Some did'"
  from k have k': "k < length ids" by simp
  from nth_update_Some [OF k' v'] have ki: "k \<noteq> i" and old: "ids ! k = Some did'" by auto
  note o = held_apartD [OF h k' old]
  from o(4) [OF i] ki v have ne: "did' \<noteq> did" by auto
  have "ids[i := None] ! j \<noteq> Some did'" if "j < length (ids[i := None])" "j \<noteq> k" for j
  proof (cases "j = i")
    case True
    with i show ?thesis by simp
  next
    case False
    with that o(4) [of j] show ?thesis by simp
  qed
  with o(1-3) ne
  show "lo \<le> did' \<and> did' < hi \<and> did' \<notin> insert did used
        \<and> (\<forall>j < length (ids[i := None]). j \<noteq> k \<longrightarrow> ids[i := None] ! j \<noteq> Some did')"
    by simp
qed

lemma ids_inv_initial: "ids_inv s (map (leg_start b e) pms) s"
proof -
  have "leg_id (leg_start b e pm) = None" for pm
    using leg_start_cases [of b e pm] by auto
  then have "held_apart (map leg_id (map (leg_start b e) pms)) {} (next_id s) (next_id s)"
    unfolding held_apart_def by simp
  then show ?thesis
    unfolding ids_inv_def
    by (intro exI [of _ "[]"]) simp
qed

lemma leg_id_leg_fail: "leg_id (leg_fail st) = None"
  by (cases st) simp_all

lemma ids_inv_fail:
  assumes "ids_inv s0 sts s"
  shows "ids_inv s0 (sts[i := leg_fail (sts ! i)]) s"
proof -
  from assms obtain ds es where
    a: "donations s = donations s0 @ ds" "pointHistory s = pointHistory s0 @ es"
      "next_id s0 \<le> next_id s" "map d_id ds = [next_id s0..<next_id s]"
      "distinct (map donationId es)" "donationId ` set es \<subseteq> {next_id s0..<next_id s}"
    and h: "held_apart (map leg_id sts) (donationId ` set es) (next_id s0) (next_id s)"
    unfolding ids_inv_def by blast
  from held_apart_None [OF h, of i]
  have "held_apart (map leg_id (sts[i := leg_fail (sts ! i)])) (donationId ` set es)
          (next_id s0) (next_id s)"
    by (simp add: map_update leg_id_leg_fail)
  with a show ?thesis
    unfolding ids_inv_def by (intro exI [of _ ds] exI [of _ es]) simp
qed

lemma ids_inv_step:
  assumes inv: "ids_inv s0 sts s" and i: "i < length sts"
    and step: "leg_step m (sts ! i) s = (st, s')"
  shows "ids_inv s0 (sts[i := st]) s'"
proof -
  from inv obtain ds es where
    d: "donations s = donations s0 @ ds" and p: "pointHistory s = pointHistory s0 @ es"
    and le: "next_id s0 \<le> next_id s" and ids: "map d_id ds = [next_id s0..<next_id s]"
    and dist: "distinct (map donationId es)"
    and sub: "donationId ` set es \<subseteq> {next_id s0..<next_id s}"
    and h: "held_apart (map leg_id sts) (donationId ` set es) (next_id s0) (next_id s)"
    unfolding ids_inv_def by blast
  from i have il: "i < length (map leg_id sts)" by simp
  show ?thesis
  proof (cases "sts ! i")
    case (Create_donation dat pts)
    let ?d = "\<lparr>d_id = next_id s, d_data = dat\<rparr>"
    from step Create_donation
    have "leg_step m (Create_donation dat pts) s = (st, s')" by (simp only:)
    then have st: "st = (if points_due m then Find_last (the (userId m)) (next_id s) pts
                         else Resolved)"
      and s': "s' = s\<lparr>donations := donations s @ [?d], next_id := Suc (next_id s)\<rparr>"
      unfolding leg_step_Create_donation by simp_all
    have d': "donations s' = donations s0 @ (ds @ [?d])" using d s' by simp
    have p': "pointHistory s' = pointHistory s0 @ es" using p s' by simp
    have n': "next_id s' = Suc (next_id s)" using s' by simp
    have ids': "map d_id (ds @ [?d]) = [next_id s0..<next_id s']"
      using ids le n' by simp
    have sub': "donationId ` set es \<subseteq> {next_id s0..<next_id s'}"
      using sub n' by auto
    have h': "held_apart (map leg_id (sts[i := st])) (donationId ` set es)
                (next_id s0) (next_id s')"
    proof (cases "points_due m")
      case True
      with st have "leg_id st = Some (next_id s)" by simp
      with held_apart_fresh [OF h il le sub] n' show ?thesis by (simp add: map_update)
    next
      case False
      with st have "leg_id st = None" by simp
      with held_apart_widen [OF held_apart_None [OF h, of i]] n' show ?thesis
        by (simp add: map_update)
    qed
    show ?thesis
      unfolding ids_inv_def
      using d' p' le n' ids' dist sub' h'
      by (intro exI [of _ "ds @ [?d]"] exI [of _ es]) simp
  next
    case (Find_last u did pts)
    with step obtain bal where st: "st = Create_history u did pts bal" and s': "s' = s"
      by (auto simp: Let_def)
    from Find_last st i have "map leg_id (sts[i := st]) = map leg_id sts"
      by (simp add: map_update list_update_same_conv)
    with d p le ids dist sub h s' show ?thesis
      unfolding ids_inv_def by (intro exI [of _ ds] exI [of _ es]) simp
  next
    case (Create_history u did pts bal)
    let ?en = "\<lparr>donationId = did, ph_userId = u, ph_fundSlug = fundSlug m,
                ph_projectSlug = projectSlug m, ph_pointsAdded = pts,
                pointsBalance = bal + pts\<rparr>"
    from step Create_history have st: "st = Resolved"
      and s': "s' = s\<lparr>pointHistory := pointHistory s @ [?en]\<rparr>"
      by (simp_all add: pointHistory_create_def)
    from Create_history i have held: "map leg_id sts ! i = Some did" by simp
    note u = held_apart_use [OF h il held] held_apartD(3,1,2) [OF h il held]
    have d': "donations s' = donations s0 @ ds" using d s' by simp
    have p': "pointHistory s' = pointHistory s0 @ (es @ [?en])" using p s' by simp
    have n': "next_id s' = next_id s" using s' by simp
    have dist': "distinct (map donationId (es @ [?en]))" using dist u(2) by simp
    have sub': "donationId ` set (es @ [?en]) \<subseteq> {next_id s0..<next_id s}"
      using sub u(3,4) by simp
    have h': "held_apart (map leg_id (sts[i := st])) (donationId ` set (es @ [?en]))
                (next_id s0) (next_id s)"
      using u(1) st by (simp add: map_update)
    show ?thesis
      unfolding ids_inv_def
      using d' p' le n' ids dist' sub' h'
      by (intro exI [of _ ds] exI [of _ "es @ [?en]"]) simp
  next
    case Resolved
    with step have "st = sts ! i" "s' = s" by simp_all
    with inv show ?thesis by simp
  next
    case Rejected
    with step have "st = sts ! i" "s' = s" by simp_all
    with inv show ?thesis by simp
  qed
qed

lemma run_legs_ids_inv:
  "ids_inv s0 sts s \<Longrightarrow> run_legs m acts sts s = (sts', s') \<Longrightarrow> ids_inv s0 sts' s'"
proof (induction acts arbitrary: sts s)
  case Nil
  then show ?case by simp
next
  case (Cons a acts)
  show ?case
  proof (cases a)
    case (Complete i)
    show ?thesis
    proof (cases "i < length sts")
      case True
      obtain st s1 where step: "leg_step m (sts ! i) s = (st, s1)"
        by (cases "leg_step m (sts ! i) s")
      from Cons.prems(2) Complete True step
      have "run_legs m acts (sts[i := st]) s1 = (sts', s')" by simp
      with ids_inv_step [OF Cons.prems(1) True step] show ?thesis by (rule Cons.IH)
    next
      case False
      with Cons Complete show ?thesis by simp
    qed
  next
    case (Fail i)
    show ?thesis
    proof (cases "i < length sts")
      case True
      from Cons.prems(2) Fail True
      have "run_legs m acts (sts[i := leg_fail (sts ! i)]) s = (sts', s')" by simp
      with ids_inv_fail [OF Cons.prems(1)] show ?thesis by (rule Cons.IH)
    next
      case False
      with Cons Fail show ?thesis by simp
    qed
  qed
qed

section \<open>Each donation has its leg\<close>

lemma pairedI:
  assumes "length who = length ds" and "distinct who" and "length sts = length pms"
    and "\<And>k. k < length who \<Longrightarrow>
           who ! k < length pms \<and> amount (pms ! (who ! k)) \<noteq> 0
           \<and> (\<exists>p. leg_start b e (pms ! (who ! k)) = Create_donation (d_data (ds ! k)) p)
           \<and> after_donation (points_due (body_metadata b)) (d_id (ds ! k))
                (donationId ` set es) (sts ! (who ! k))"
    and "\<And>i. i < length pms \<Longrightarrow> i \<notin> set who \<Longrightarrow> before_donation b e (pms ! i) (sts ! i)"
  shows "paired b e pms who ds es sts"
  using assms unfolding paired_def by blast

lemma pairedD:
  assumes "paired b e pms who ds es sts"
  shows "length who = length ds" and "distinct who" and "length sts = length pms"
    and "k < length who \<Longrightarrow> who ! k < length pms"
    and "k < length who \<Longrightarrow> amount (pms ! (who ! k)) \<noteq> 0"
    and "k < length who \<Longrightarrow>
           \<exists>p. leg_start b e (pms ! (who ! k)) = Create_donation (d_data (ds ! k)) p"
    and "k < length who \<Longrightarrow>
           after_donation (points_due (body_metadata b)) (d_id (ds ! k))
             (donationId ` set es) (sts ! (who ! k))"
    and "i < length pms \<Longrightarrow> i \<notin> set who \<Longrightarrow> before_donation b e (pms ! i) (sts ! i)"
  using assms unfolding paired_def by blast+

lemma after_donation_mono:
  "after_donation due did used st \<Longrightarrow> used \<subseteq> used' \<Longrightarrow> after_donation due did used' st"
  by (cases st) (auto split: if_splits)

lemma after_donation_fail:
  "after_donation due did used st \<Longrightarrow> after_donation due did used (leg_fail st)"
  by (cases st) auto

lemma before_donation_fail:
  "before_donation b e pm st \<Longrightarrow> before_donation b e pm (leg_fail st)"
  by (cases st) auto

lemma paired_initial: "paired b e pms [] [] [] (map (leg_start b e) pms)"
proof (rule pairedI)
  fix i assume "i < length pms"
  then show "before_donation b e (pms ! i) (map (leg_start b e) pms ! i)"
    using leg_start_cases [of b e "pms ! i"] by auto
qed simp_all

lemma paired_fail:
  assumes p: "paired b e pms who ds es sts"
  shows "paired b e pms who ds es (sts[i := leg_fail (sts ! i)])"
proof (rule pairedI)
  note d = pairedD [OF p]
  show "length who = length ds" "distinct who" by (rule d)+
  show "length (sts[i := leg_fail (sts ! i)]) = length pms" using d(3) by simp
  show "who ! k < length pms \<and> amount (pms ! (who ! k)) \<noteq> 0
           \<and> (\<exists>p. leg_start b e (pms ! (who ! k)) = Create_donation (d_data (ds ! k)) p)
           \<and> after_donation (points_due (body_metadata b)) (d_id (ds ! k))
                (donationId ` set es) (sts[i := leg_fail (sts ! i)] ! (who ! k))"
    if k: "k < length who" for k
  proof -
    have "after_donation (points_due (body_metadata b)) (d_id (ds ! k))
                (donationId ` set es) (sts[i := leg_fail (sts ! i)] ! (who ! k))"
      using d(7) [OF k] d(4) [OF k] d(3) after_donation_fail
      by (cases "who ! k = i") auto
    with d(4,5,6) [OF k] show ?thesis by blast
  qed
  show "before_donation b e (pms ! j) (sts[i := leg_fail (sts ! i)] ! j)"
    if "j < length pms" "j \<notin> set who" for j
    using d(8) [OF that] that(1) d(3) before_donation_fail
    by (cases "j = i") auto
qed

lemma paired_keep:
  assumes p: "paired b e pms who ds es sts" and i: "i < length pms"
    and st: "sts ! i = Find_last u did pts"
  shows "paired b e pms who ds es (sts[i := Create_history u did pts bal])"
proof (rule pairedI)
  note d = pairedD [OF p]
  show "length who = length ds" "distinct who" by (rule d)+
  show "length (sts[i := Create_history u did pts bal]) = length pms" using d(3) by simp
  show "who ! k < length pms \<and> amount (pms ! (who ! k)) \<noteq> 0
           \<and> (\<exists>p. leg_start b e (pms ! (who ! k)) = Create_donation (d_data (ds ! k)) p)
           \<and> after_donation (points_due (body_metadata b)) (d_id (ds ! k))
                (donationId ` set es) (sts[i := Create_history u did pts bal] ! (who ! k))"
    if k: "k < length who" for k
  proof -
    have "after_donation (points_due (body_metadata b)) (d_id (ds ! k))
                (donationId ` set es) (sts[i := Create_history u did pts bal] ! (who ! k))"
      using d(7) [OF k] d(4) [OF k] d(3) st
      by (cases "who ! k = i") auto
    with d(4,5,6) [OF k] show ?thesis by blast
  qed
  show "before_donation b e (pms ! j) (sts[i := Create_history u did pts bal] ! j)"
    if "j < length pms" "j \<notin> set who" for j
    using d(8) [OF that] that(1) d(3) st
    by (cases "j = i") auto
qed

lemma paired_write:
  assumes p: "paired b e pms who ds es sts" and i: "i < length pms"
    and st: "sts ! i = Create_history u did pts bal" and en: "donationId en = did"
  shows "paired b e pms who ds (es @ [en]) (sts[i := Resolved])"
proof (rule pairedI)
  note d = pairedD [OF p]
  show "length who = length ds" "distinct who" by (rule d)+
  show "length (sts[i := Resolved]) = length pms" using d(3) by simp
  show "who ! k < length pms \<and> amount (pms ! (who ! k)) \<noteq> 0
           \<and> (\<exists>p. leg_start b e (pms ! (who ! k)) = Create_donation (d_data (ds ! k)) p)
           \<and> after_donation (points_due (body_metadata b)) (d_id (ds ! k))
                (donationId ` set (es @ [en])) (sts[i := Resolved] ! (who ! k))"
    if k: "k < length who" for k
  proof -
    have old: "after_donation (points_due (body_metadata b)) (d_id (ds ! k))
                (donationId ` set (es @ [en])) (sts ! (who ! k))"
      using after_donation_mono [OF d(7) [OF k]] by auto
    have "after_donation (points_due (body_metadata b)) (d_id (ds ! k))
                (donationId ` set (es @ [en])) (sts[i := Resolved] ! (who ! k))"
    proof (cases "who ! k = i")
      case True
      with d(7) [OF k] st have "did = d_id (ds ! k)" by simp
      with True i d(3) en show ?thesis by simp
    next
      case False
      with old show ?thesis by simp
    qed
    with d(4,5,6) [OF k] show ?thesis by blast
  qed
  show "before_donation b e (pms ! j) (sts[i := Resolved] ! j)"
    if "j < length pms" "j \<notin> set who" for j
    using d(8) [OF that] that(1) d(3) st
    by (cases "j = i") auto
qed

lemma paired_donate:
  assumes p: "paired b e pms who ds es sts" and i: "i < length pms"
    and st: "sts ! i = Create_donation dat pts"
    and new: "st' = Find_last u (d_id d) pts' \<or> (st' = Resolved \<and> \<not> points_due (body_metadata b))"
    and dat: "d_data d = dat"
  shows "paired b e pms (who @ [i]) (ds @ [d]) es (sts[i := st'])"
proof -
  note d = pairedD [OF p]
  have notin: "i \<notin> set who"
  proof
    assume "i \<in> set who"
    then obtain k where k: "k < length who" "who ! k = i" by (auto simp: in_set_conv_nth)
    with d(7) [OF k(1)] st show False by simp
  qed
  from d(8) [OF i notin] st have nz: "amount (pms ! i) \<noteq> 0"
    and ls: "leg_start b e (pms ! i) = Create_donation dat pts" by simp_all
  show ?thesis
  proof (rule pairedI)
    show "length (who @ [i]) = length (ds @ [d])" using d(1) by simp
    show "distinct (who @ [i])" using d(2) notin by simp
    show "length (sts[i := st']) = length pms" using d(3) by simp
    show "(who @ [i]) ! k < length pms \<and> amount (pms ! ((who @ [i]) ! k)) \<noteq> 0
           \<and> (\<exists>p. leg_start b e (pms ! ((who @ [i]) ! k))
                  = Create_donation (d_data ((ds @ [d]) ! k)) p)
           \<and> after_donation (points_due (body_metadata b)) (d_id ((ds @ [d]) ! k))
                (donationId ` set es) (sts[i := st'] ! ((who @ [i]) ! k))"
      if k: "k < length (who @ [i])" for k
    proof (cases "k < length who")
      case True
      then have ne: "who ! k \<noteq> i" using notin by (metis nth_mem)
      from True d(1) have "(who @ [i]) ! k = who ! k" "(ds @ [d]) ! k = ds ! k"
        by (simp_all add: nth_append)
      with d(4,5,6,7) [OF True] ne show ?thesis by simp
    next
      case False
      with k have kk: "k = length who" by simp
      with d(1) have "(who @ [i]) ! k = i" "(ds @ [d]) ! k = d" by (simp_all add: nth_append)
      moreover have "after_donation (points_due (body_metadata b)) (d_id d)
                (donationId ` set es) (sts[i := st'] ! i)"
        using new i d(3) by auto
      ultimately show ?thesis using i nz ls dat by auto
    qed
    show "before_donation b e (pms ! j) (sts[i := st'] ! j)"
      if "j < length pms" "j \<notin> set (who @ [i])" for j
      using d(8) [of j] that by auto
  qed
qed

lemma pair_inv_initial: "pair_inv b e pms s (map (leg_start b e) pms) s"
  unfolding pair_inv_def
  using paired_initial [of b e pms]
  by (intro exI [of _ "[]"]) simp

lemma pair_inv_fail:
  assumes "pair_inv b e pms s0 sts s"
  shows "pair_inv b e pms s0 (sts[i := leg_fail (sts ! i)]) s"
proof -
  from assms obtain who ds es where
    a: "donations s = donations s0 @ ds" "pointHistory s = pointHistory s0 @ es"
    and p: "paired b e pms who ds es sts"
    unfolding pair_inv_def by blast
  from a paired_fail [OF p, of i] show ?thesis
    unfolding pair_inv_def by blast
qed

lemma pair_inv_step:
  assumes inv: "pair_inv b e pms s0 sts s" and i: "i < length sts"
    and step: "leg_step (body_metadata b) (sts ! i) s = (st, s')"
  shows "pair_inv b e pms s0 (sts[i := st]) s'"
proof -
  let ?m = "body_metadata b"
  from inv obtain who ds es where
    d: "donations s = donations s0 @ ds" and h: "pointHistory s = pointHistory s0 @ es"
    and p: "paired b e pms who ds es sts"
    unfolding pair_inv_def by blast
  from pairedD(3) [OF p] i have ip: "i < length pms" by simp
  show ?thesis
  proof (cases "sts ! i")
    case (Create_donation dat pts)
    let ?d = "\<lparr>d_id = next_id s, d_data = dat\<rparr>"
    from step Create_donation
    have "leg_step ?m (Create_donation dat pts) s = (st, s')" by (simp only:)
    then have st: "st = (if points_due ?m then Find_last (the (userId ?m)) (next_id s) pts
                         else Resolved)"
      and s': "s' = s\<lparr>donations := donations s @ [?d], next_id := Suc (next_id s)\<rparr>"
      unfolding leg_step_Create_donation by simp_all
    from st have new: "st = Find_last (the (userId ?m)) (d_id ?d) pts
                       \<or> (st = Resolved \<and> \<not> points_due ?m)" by simp
    have dat: "d_data ?d = dat" by simp
    from paired_donate [OF p ip Create_donation new dat]
    have "paired b e pms (who @ [i]) (ds @ [?d]) es (sts[i := st])" .
    moreover have "donations s' = donations s0 @ (ds @ [?d])" using d s' by simp
    moreover have "pointHistory s' = pointHistory s0 @ es" using h s' by simp
    ultimately show ?thesis unfolding pair_inv_def by blast
  next
    case (Find_last u did pts)
    with step obtain bal where st: "st = Create_history u did pts bal" and s': "s' = s"
      by (auto simp: Let_def)
    from paired_keep [OF p ip Find_last, of bal] d h st s' show ?thesis
      unfolding pair_inv_def by blast
  next
    case (Create_history u did pts bal)
    let ?en = "\<lparr>donationId = did, ph_userId = u, ph_fundSlug = fundSlug ?m,
                ph_projectSlug = projectSlug ?m, ph_pointsAdded = pts,
                pointsBalance = bal + pts\<rparr>"
    from step Create_history have st: "st = Resolved"
      and s': "s' = s\<lparr>pointHistory := pointHistory s @ [?en]\<rparr>"
      by (simp_all add: pointHistory_create_def)
    have "donationId ?en = did" by simp
    from paired_write [OF p ip Create_history this]
    have "paired b e pms who ds (es @ [?en]) (sts[i := st])" using st by simp
    moreover have "donations s' = donations s0 @ ds" using d s' by simp
    moreover have "pointHistory s' = pointHistory s0 @ (es @ [?en])" using h s' by simp
    ultimately show ?thesis unfolding pair_inv_def by blast
  next
    case Resolved
    with step have "st = sts ! i" "s' = s" by simp_all
    with inv show ?thesis by simp
  next
    case Rejected
    with step have "st = sts ! i" "s' = s" by simp_all
    with inv show ?thesis by simp
  qed
qed

lemma run_legs_pair_inv:
  "pair_inv b e pms s0 sts s \<Longrightarrow> run_legs (body_metadata b) acts sts s = (sts', s')
     \<Longrightarrow> pair_inv b e pms s0 sts' s'"
proof (induction acts arbitrary: sts s)
  case Nil
  then show ?case by simp
next
  case (Cons a acts)
  show ?case
  proof (cases a)
    case (Complete i)
    show ?thesis
    proof (cases "i < length sts")
      case True
      obtain st s1 where step: "leg_step (body_metadata b) (sts ! i) s = (st, s1)"
        by (cases "leg_step (body_metadata b) (sts ! i) s")
      from Cons.prems(2) Complete True step
      have "run_legs (body_metadata b) acts (sts[i := st]) s1 = (sts', s')" by simp
      with pair_inv_step [OF Cons.prems(1) True step] show ?thesis by (rule Cons.IH)
    next
      case False
      with Cons Complete show ?thesis by simp
    qed
  next
    case (Fail i)
    show ?thesis
    proof (cases "i < length sts")
      case True
      from Cons.prems(2) Fail True
      have "run_legs (body_metadata b) acts (sts[i := leg_fail (sts ! i)]) s = (sts', s')"
        by simp
      with pair_inv_fail [OF Cons.prems(1)] show ?thesis by (rule Cons.IH)
    next
      case False
      with Cons Fail show ?thesis by simp
    qed
  qed
qed

lemma points_due_iff:
  "points_due m = (givePointsBack m = ''true'' \<and> (\<exists>u. userId m = Some u \<and> u \<noteq> []))"
  by (auto simp: points_due_def split: option.splits)

section \<open>Printing with an exponent\<close>

text \<open>
  From \<open>10 ^ 21\<close> on and below \<open>10 ^ - 6\<close>, \<^verbatim>\<open>parseInt\<close> reads only the first digit that
  \<^verbatim>\<open>String\<close> prints: a fiat amount of \<open>10 ^ 19\<close> gives one point.
\<close>

lemma points_beyond_positional:
  "parseInt_String (js_mul (toFixed2 (10 ^ 19)) 100) = 1"
  "parseInt_String (fl (1 / 10 ^ 7)) = 1"
  "parseInt_String (js_mul (fl (1999 / 100)) 100) = 1998"
  by code_simp+

section \<open>Facts about the sample inputs\<close>

lemma sample_verified:
  "req_method sample_request = ''POST''"
  "btcpay_sig sample_request = Single ''sha256=3fa9''"
  "parsed (sample_env b pms acts) = Some b"
  "incomingSigHash ''sha256=3fa9'' = Some (expectedSigHash (sample_env b pms acts))"
  "paymentMethods (sample_env b pms acts) = Some pms"
  "event_type (sample_body ty) = ty"
  by (simp_all add: sample_request_def sample_env_def sample_body_def incomingSigHash_def)

lemma sample_not_skipped:
  "staticGeneratedForApi (body_metadata (sample_body ty)) \<noteq> ''true''"
  "staticGeneratedForApi (body_metadata (sample_body ty)) = ''false''"
  by (simp_all add: sample_body_def sample_metadata_def)

section \<open>Request validation\<close>

text \<open>
  C4, as amended. A request whose method is not POST is answered 405 and nothing else
  happens. A POST request whose signature header is absent or not a single string is
  answered 400 with \<^verbatim>\<open>{ success: false }\<close>. A POST request with a string header and a
  body that parses is answered 400 with \<^verbatim>\<open>{ success: false }\<close> when the digest of the raw
  body differs from the second \<^verbatim>\<open>=\<close>-separated field of the header (the part between
  its first \<^verbatim>\<open>=\<close> and the next), or the header has no \<^verbatim>\<open>=\<close>. In each case the store is
  unchanged.
\<close>

theorem rejected_requests:
  "(req_method req \<noteq> ''POST'' \<longrightarrow>
      handleBtcpayWebhook req ev s =
        (Responded 405 (Plain (''Method '' @ req_method req @ '' Not Allowed'')), s))
   \<and> (req_method req = ''POST'' \<and> (\<forall>sig. btcpay_sig req \<noteq> Single sig) \<longrightarrow>
      handleBtcpayWebhook req ev s = (Responded 400 (Json_success False), s))
   \<and> (req_method req = ''POST'' \<and> btcpay_sig req = Single sig \<and> parsed ev = Some b
        \<and> incomingSigHash sig \<noteq> Some (expectedSigHash ev) \<longrightarrow>
      handleBtcpayWebhook req ev s = (Responded 400 (Json_success False), s))
   \<and> incomingSigHash sig =
       (if CHR ''='' \<in> set sig
        then Some (takeWhile (\<lambda>c. c \<noteq> CHR ''='') (tl (dropWhile (\<lambda>c. c \<noteq> CHR ''='') sig)))
        else None)"
  by (auto simp: handleBtcpayWebhook_def incomingSigHash_segment sig_after_first_eq_def
      split: header_value.splits)

text \<open>The three rejections at concrete requests.\<close>

theorem rejected_requests_witness:
  "handleBtcpayWebhook \<lparr>req_method = ''GET'', btcpay_sig = Single ''sha256=3fa9''\<rparr>
     (sample_env (sample_body ''InvoiceSettled'') [] []) empty_db
     = (Responded 405 (Plain ''Method GET Not Allowed''), empty_db)
   \<and> handleBtcpayWebhook \<lparr>req_method = ''POST'', btcpay_sig = Absent\<rparr>
     (sample_env (sample_body ''InvoiceSettled'') [] []) empty_db
     = (Responded 400 (Json_success False), empty_db)
   \<and> handleBtcpayWebhook \<lparr>req_method = ''POST'', btcpay_sig = Single ''sha256=0000''\<rparr>
     (sample_env (sample_body ''InvoiceSettled'')
        [\<lparr>pm_cryptoCode = ''BTC'', rate = 1, amount = 10\<rparr>]
        [Complete 0, Complete 0, Complete 0]) empty_db
     = (Responded 400 (Json_success False), empty_db)"
  using rejected_requests [of "\<lparr>req_method = ''GET'', btcpay_sig = Single ''sha256=3fa9''\<rparr>"
      "sample_env (sample_body ''InvoiceSettled'') [] []" empty_db]
    rejected_requests [of "\<lparr>req_method = ''POST'', btcpay_sig = Absent\<rparr>"
      "sample_env (sample_body ''InvoiceSettled'') [] []" empty_db]
    rejected_requests [of "\<lparr>req_method = ''POST'', btcpay_sig = Single ''sha256=0000''\<rparr>"
      "sample_env (sample_body ''InvoiceSettled'')
        [\<lparr>pm_cryptoCode = ''BTC'', rate = 1, amount = 10\<rparr>]
        [Complete 0, Complete 0, Complete 0]" empty_db "''sha256=0000''"
      "sample_body ''InvoiceSettled''"]
  by (simp add: sample_env_def incomingSigHash_def)

text \<open>
  C4 as stated fails twice. The part of the header \<^verbatim>\<open>sha256=3fa9=00\<close> after its first \<^verbatim>\<open>=\<close>
  is \<^verbatim>\<open>3fa9=00\<close>, which differs from the digest \<^verbatim>\<open>3fa9\<close>, yet the handler accepts the
  request, writes a donation and answers 200. And when the raw body is not valid JSON,
  \<^verbatim>\<open>JSON.parse\<close> (line 45) throws before the digests are compared (line 54): the handler
  sends no 400.
\<close>

theorem signature_check_counterexample:
  "sig_after_first_eq ''sha256=3fa9=00'' = Some ''3fa9=00''
   \<and> Some ''3fa9=00'' \<noteq> Some (expectedSigHash (sample_env (sample_body ''InvoiceSettled'')
           [\<lparr>pm_cryptoCode = ''BTC'', rate = 1, amount = 10\<rparr>]
           [Complete 0, Complete 0, Complete 0]))
   \<and> fst (handleBtcpayWebhook \<lparr>req_method = ''POST'', btcpay_sig = Single ''sha256=3fa9=00''\<rparr>
        (sample_env (sample_body ''InvoiceSettled'')
           [\<lparr>pm_cryptoCode = ''BTC'', rate = 1, amount = 10\<rparr>]
           [Complete 0, Complete 0, Complete 0]) empty_db)
       = Responded 200 (Json_success True)
   \<and> length (donations (snd (handleBtcpayWebhook
        \<lparr>req_method = ''POST'', btcpay_sig = Single ''sha256=3fa9=00''\<rparr>
        (sample_env (sample_body ''InvoiceSettled'')
           [\<lparr>pm_cryptoCode = ''BTC'', rate = 1, amount = 10\<rparr>]
           [Complete 0, Complete 0, Complete 0]) empty_db))) = 1
   \<and> handleBtcpayWebhook \<lparr>req_method = ''POST'', btcpay_sig = Single ''sha256=ffff''\<rparr>
        ((sample_env (sample_body ''InvoiceSettled'') [] [])\<lparr>parsed := None\<rparr>) empty_db
       = (Threw, empty_db)"
  by code_simp

section \<open>Skipped events\<close>

text \<open>
  C5. For a verified event, a partial-settlement event (\<^verbatim>\<open>InvoicePaymentSettled\<close>) whose
  metadata says it was not generated for the API, and a full-settlement event
  (\<^verbatim>\<open>InvoiceSettled\<close>) whose metadata says it was, are skipped: the store is unchanged (no
  donation, no points entry) and the response is 200 with \<^verbatim>\<open>{ success: true }\<close>.
\<close>

theorem skipped_events_acknowledged:
  assumes "req_method req = ''POST''"
    and "btcpay_sig req = Single sig"
    and "parsed ev = Some b"
    and "incomingSigHash sig = Some (expectedSigHash ev)"
    and "event_type b = ''InvoicePaymentSettled''
           \<and> staticGeneratedForApi (body_metadata b) = ''false''
         \<or> event_type b = ''InvoiceSettled''
           \<and> staticGeneratedForApi (body_metadata b) = ''true''"
  shows "handleBtcpayWebhook req ev s = (Responded 200 (Json_success True), s)"
  using assms
  by (auto simp: handleBtcpayWebhook_def process_event_def payment_settled_def
      invoice_settled_def)

text \<open>Both skips at the sample request.\<close>

theorem skipped_events_witness:
  "handleBtcpayWebhook sample_request
     (sample_env (sample_body ''InvoicePaymentSettled'') [] [Complete 0]) empty_db
     = (Responded 200 (Json_success True), empty_db)
   \<and> handleBtcpayWebhook sample_request
     (sample_env ((sample_body ''InvoiceSettled'')
          \<lparr>body_metadata := sample_metadata\<lparr>staticGeneratedForApi := ''true''\<rparr>\<rparr>)
        [\<lparr>pm_cryptoCode = ''BTC'', rate = 1, amount = 10\<rparr>]
        [Complete 0, Complete 0, Complete 0]) empty_db
     = (Responded 200 (Json_success True), empty_db)"
proof -
  have a: "event_type (sample_body ''InvoicePaymentSettled'') = ''InvoicePaymentSettled''
           \<and> staticGeneratedForApi (body_metadata (sample_body ''InvoicePaymentSettled''))
               = ''false''
         \<or> event_type (sample_body ''InvoicePaymentSettled'') = ''InvoiceSettled''
           \<and> staticGeneratedForApi (body_metadata (sample_body ''InvoicePaymentSettled''))
               = ''true''"
    by (simp add: sample_body_def sample_metadata_def)
  let ?b = "(sample_body ''InvoiceSettled'')
          \<lparr>body_metadata := sample_metadata\<lparr>staticGeneratedForApi := ''true''\<rparr>\<rparr>"
  have b: "event_type ?b = ''InvoicePaymentSettled''
           \<and> staticGeneratedForApi (body_metadata ?b) = ''false''
         \<or> event_type ?b = ''InvoiceSettled''
           \<and> staticGeneratedForApi (body_metadata ?b) = ''true''"
    by (simp add: sample_body_def sample_metadata_def)
  show ?thesis
    using skipped_events_acknowledged [OF sample_verified(1-4) a]
      skipped_events_acknowledged [OF sample_verified(1-4) b]
    by simp
qed

section \<open>Partial settlement\<close>

text \<open>
  C10. A verified partial-settlement event that is not skipped writes no points entry,
  whatever the answers of the collaborators, and at most one donation; the donation has no
  user, leaves \<^verbatim>\<open>pointsAdded\<close> to its default 0 and has no membership expiry, whatever the
  \<^verbatim>\<open>userId\<close>, \<^verbatim>\<open>givePointsBack\<close> and \<^verbatim>\<open>isMembership\<close> of the metadata. When the rate
  arrives and the write completes, the donation is written and the response is 200.
\<close>

theorem partial_settlement_donation:
  assumes "req_method req = ''POST''"
    and "btcpay_sig req = Single sig"
    and "parsed ev = Some b"
    and "incomingSigHash sig = Some (expectedSigHash ev)"
    and "event_type b = ''InvoicePaymentSettled''"
    and "staticGeneratedForApi (body_metadata b) \<noteq> ''false''"
    and "handleBtcpayWebhook req ev s = (out, s')"
  shows "pointHistory s' = pointHistory s
         \<and> (\<exists>ds. donations s' = donations s @ ds \<and> length ds \<le> 1
               \<and> (\<forall>d \<in> set ds. d_userId (d_data d) = None
                      \<and> pointsAdded (d_data d) = None \<and> donation_pointsAdded d = 0
                      \<and> membershipExpiresAt (d_data d) = None)
               \<and> (\<forall>r rs i acts. rates ev = Some (r # rs) \<and> schedule ev = Complete i # acts
                      \<longrightarrow> out = Responded 200 (Json_success True) \<and> length ds = 1))"
proof -
  from assms have ps: "process_event b ev s = (out, s')"
    by (simp add: handleBtcpayWebhook_def)
  show ?thesis
  proof (cases "\<exists>r rs i acts. rates ev = Some (r # rs) \<and> schedule ev = Complete i # acts")
    case True
    then obtain r rs i acts where r: "rates ev = Some (r # rs)"
      and a: "schedule ev = Complete i # acts" by blast
    from ps assms(5,6) r a
    have out: "out = Responded 200 (Json_success True)"
      and "\<exists>d. s' = s\<lparr>donations := donations s @ [d], next_id := Suc (next_id s)\<rparr>
              \<and> d_userId (d_data d) = None
              \<and> pointsAdded (d_data d) = None \<and> membershipExpiresAt (d_data d) = None"
      by (auto simp: process_event_def payment_settled_def donation_create_def Let_def)
    then obtain d where s': "s' = s\<lparr>donations := donations s @ [d], next_id := Suc (next_id s)\<rparr>"
      and d: "d_userId (d_data d) = None" "pointsAdded (d_data d) = None"
        "membershipExpiresAt (d_data d) = None" by blast
    from d have "donation_pointsAdded d = 0" by (simp add: donation_pointsAdded_def)
    with s' d out show ?thesis
      by (intro conjI exI [of _ "[d]"]) auto
  next
    case False
    with ps assms(5,6) have "s' = s"
      by (auto simp: process_event_def payment_settled_def Let_def
          split: option.splits list.splits action.splits)
    with False show ?thesis by (intro conjI exI [of _ "[]"]) auto
  qed
qed

text \<open>A partial settlement whose metadata carries a user, asks for points and is a
  membership.\<close>

theorem partial_settlement_witness:
  "fst (handleBtcpayWebhook sample_request
     (sample_env ((sample_body ''InvoicePaymentSettled'')
          \<lparr>body_metadata := sample_metadata\<lparr>staticGeneratedForApi := ''true''\<rparr>\<rparr>)
        [] [Complete 0]) empty_db) = Responded 200 (Json_success True)
   \<and> pointHistory (snd (handleBtcpayWebhook sample_request
     (sample_env ((sample_body ''InvoicePaymentSettled'')
          \<lparr>body_metadata := sample_metadata\<lparr>staticGeneratedForApi := ''true''\<rparr>\<rparr>)
        [] [Complete 0]) empty_db)) = []
   \<and> (\<exists>d. donations (snd (handleBtcpayWebhook sample_request
     (sample_env ((sample_body ''InvoicePaymentSettled'')
          \<lparr>body_metadata := sample_metadata\<lparr>staticGeneratedForApi := ''true''\<rparr>\<rparr>)
        [] [Complete 0]) empty_db)) = [d]
        \<and> d_userId (d_data d) = None \<and> donation_pointsAdded d = 0
        \<and> membershipExpiresAt (d_data d) = None)"
proof -
  let ?b = "(sample_body ''InvoicePaymentSettled'')
          \<lparr>body_metadata := sample_metadata\<lparr>staticGeneratedForApi := ''true''\<rparr>\<rparr>"
  let ?ev = "sample_env ?b [] [Complete 0]"
  let ?r = "handleBtcpayWebhook sample_request ?ev empty_db"
  have b: "event_type ?b = ''InvoicePaymentSettled''"
    "staticGeneratedForApi (body_metadata ?b) \<noteq> ''false''"
    by (simp_all add: sample_body_def sample_metadata_def)
  have e: "rates ?ev = Some (30000 # [])" "schedule ?ev = Complete 0 # []"
    by (simp_all add: sample_env_def)
  have run: "?r = (fst ?r, snd ?r)" by simp
  from partial_settlement_donation [OF sample_verified(1-4) b run]
  obtain ds where h: "pointHistory (snd ?r) = pointHistory empty_db"
    and d: "donations (snd ?r) = donations empty_db @ ds"
    and p: "\<forall>d \<in> set ds. d_userId (d_data d) = None
                      \<and> pointsAdded (d_data d) = None \<and> donation_pointsAdded d = 0
                      \<and> membershipExpiresAt (d_data d) = None"
    and c: "\<forall>r rs i acts. rates ?ev = Some (r # rs) \<and> schedule ?ev = Complete i # acts
                      \<longrightarrow> fst ?r = Responded 200 (Json_success True) \<and> length ds = 1"
    by blast
  from c e have out: "fst ?r = Responded 200 (Json_success True)" and l: "length ds = 1"
    by blast+
  from l obtain d where "ds = [d]" by (cases ds) auto
  with h d p out show ?thesis by (simp add: empty_db_def)
qed

section \<open>Amounts of a full settlement\<close>

text \<open>
  C2, as amended. For a payment method with nonzero amount the donation is written with
  \<^verbatim>\<open>grossCryptoAmount\<close> the amount rounded to two decimals and \<^verbatim>\<open>grossFiatAmount\<close> the
  product of amount and rate rounded to two decimals. When points are requested,
  \<^verbatim>\<open>netCryptoAmount\<close> is the product of the unrounded amount and 0.9, rounded to two
  decimals, and \<^verbatim>\<open>netFiatAmount\<close> is the product of that unrounded net crypto amount and
  the rate, itself rounded to two decimals. Otherwise the net amounts equal the gross
  amounts. Products are products of doubles; rounding is \<^verbatim>\<open>Number(x.toFixed(2))\<close>.
\<close>

theorem settled_donation_amounts:
  assumes "amount pm \<noteq> 0"
  shows "\<exists>dat p. leg_start b e pm = Create_donation dat p
     \<and> grossCryptoAmount dat = toFixed2 (amount pm)
     \<and> grossFiatAmount dat = toFixed2 (js_mul (amount pm) (rate pm))
     \<and> (givePointsBack (body_metadata b) = ''true'' \<longrightarrow>
          netCryptoAmount dat = toFixed2 (js_mul (amount pm) (fl (9 / 10)))
          \<and> netFiatAmount dat = toFixed2 (js_mul (js_mul (amount pm) (fl (9 / 10))) (rate pm)))
     \<and> (givePointsBack (body_metadata b) \<noteq> ''true'' \<longrightarrow>
          netCryptoAmount dat = grossCryptoAmount dat
          \<and> netFiatAmount dat = grossFiatAmount dat)
     \<and> (\<forall>s. donations (snd (leg_step (body_metadata b) (Create_donation dat p) s))
              = donations s @ [\<lparr>d_id = next_id s, d_data = dat\<rparr>])"
  using assms
  by (simp add: leg_start_def Let_def donations_leg_step_Create_donation del: leg_step.simps)

text \<open>The amounts for 1.236 units at the rate 2.5, points requested.\<close>

theorem settled_donation_amounts_witness:
  "amount \<lparr>pm_cryptoCode = ''BTC'', rate = 5 / 2, amount = fl (1236 / 1000)\<rparr> \<noteq> 0
   \<and> (\<exists>dat p. leg_start (sample_body ''InvoiceSettled'') 365
          \<lparr>pm_cryptoCode = ''BTC'', rate = 5 / 2, amount = fl (1236 / 1000)\<rparr>
            = Create_donation dat p
        \<and> grossCryptoAmount dat = toFixed2 (fl (1236 / 1000))
        \<and> grossFiatAmount dat = toFixed2 (js_mul (fl (1236 / 1000)) (5 / 2))
        \<and> netCryptoAmount dat = toFixed2 (js_mul (fl (1236 / 1000)) (fl (9 / 10)))
        \<and> netFiatAmount dat
            = toFixed2 (js_mul (js_mul (fl (1236 / 1000)) (fl (9 / 10))) (5 / 2)))"
proof -
  have nz: "amount \<lparr>pm_cryptoCode = ''BTC'', rate = 5 / 2, amount = fl (1236 / 1000)\<rparr> \<noteq> 0"
    by code_simp
  have m: "givePointsBack (body_metadata (sample_body ''InvoiceSettled'')) = ''true''"
    by (simp add: sample_body_def sample_metadata_def)
  from settled_donation_amounts [OF nz, of "sample_body ''InvoiceSettled''" 365] m nz
  show ?thesis by auto
qed

text \<open>
  C2 as stated fails for 1.236 units at the rate 2.5 with points requested: the donation
  has the net fiat amount 2.78, which is not its net crypto amount 1.11 times the rate
  (2.775), and its net crypto amount is not its gross crypto amount 1.24 times 0.9,
  rounded (1.12).
\<close>

theorem net_amounts_counterexample:
  "leg_start (sample_body ''InvoiceSettled'') 365
      \<lparr>pm_cryptoCode = ''BTC'', rate = 5 / 2, amount = fl (1236 / 1000)\<rparr>
   = Create_donation
      \<lparr>d_userId = Some ''user'', btcPayInvoiceId = ''invoice'', d_projectName = ''Project'',
       d_projectSlug = ''project'', d_fundSlug = ''fund'', cryptoCode = ''BTC'',
       grossCryptoAmount = fl (124 / 100), grossFiatAmount = fl (309 / 100),
       netCryptoAmount = fl (111 / 100), netFiatAmount = fl (278 / 100),
       pointsAdded = Some 309, membershipExpiresAt = Some 365\<rparr> 309
   \<and> fl (278 / 100) \<noteq> js_mul (fl (111 / 100)) (5 / 2)
   \<and> fl (111 / 100) \<noteq> toFixed2 (js_mul (fl (124 / 100)) (fl (9 / 10)))"
  by code_simp

section \<open>Points of a leg\<close>

text \<open>
  C3. The claim gives 1999 points for a gross fiat amount of 19.99. With points requested,
  a payment method of amount 1 at the rate 19.99 has the gross fiat amount 19.99, and the
  handler writes the donation and its points entry with 1998 points: the product of the
  double 19.99 and 100 is the double just below 1999 (positional, so \<^verbatim>\<open>parseInt\<close> reads
  its integer part), and \<^verbatim>\<open>parseInt\<close> drops the fraction.
\<close>

theorem points_of_19_99:
  "positional (js_mul (toFixed2 (js_mul 1 (fl (1999 / 100)))) 100)
   \<and> handleBtcpayWebhook sample_request
     (sample_env (sample_body ''InvoiceSettled'')
        [\<lparr>pm_cryptoCode = ''BTC'', rate = fl (1999 / 100), amount = 1\<rparr>]
        [Complete 0, Complete 0, Complete 0]) empty_db
   = (Responded 200 (Json_success True),
      \<lparr>donations =
         [\<lparr>d_id = 0, d_data =
            \<lparr>d_userId = Some ''user'', btcPayInvoiceId = ''invoice'',
             d_projectName = ''Project'', d_projectSlug = ''project'', d_fundSlug = ''fund'',
             cryptoCode = ''BTC'', grossCryptoAmount = 1, grossFiatAmount = fl (1999 / 100),
             netCryptoAmount = fl (9 / 10), netFiatAmount = fl (1799 / 100),
             pointsAdded = Some 1998, membershipExpiresAt = Some 365\<rparr>\<rparr>],
       pointHistory =
         [\<lparr>donationId = 0, ph_userId = ''user'', ph_fundSlug = ''fund'',
           ph_projectSlug = ''project'', ph_pointsAdded = 1998, pointsBalance = 1998\<rparr>],
       next_id = 1\<rparr>)"
  by code_simp

section \<open>Zero amounts\<close>

text \<open>
  C6. For a verified full-settlement event that is not skipped, whatever the order in which
  the operations complete or fail: every donation written is that of a payment method with
  nonzero amount, and every points entry written carries the identifier of such a donation,
  so nothing is written for a payment method of amount zero. When the handler answers 200,
  the donations written are as many as the payment methods of nonzero amount; in
  particular, of two payment methods of which one has amount zero, exactly one donation,
  that of the other. Under the sequential schedule the handler does answer 200.
\<close>

theorem zero_amount_legs_skipped:
  assumes "req_method req = ''POST''"
    and "btcpay_sig req = Single sig"
    and "parsed ev = Some b"
    and "incomingSigHash sig = Some (expectedSigHash ev)"
    and "event_type b = ''InvoiceSettled''"
    and "staticGeneratedForApi (body_metadata b) \<noteq> ''true''"
    and "paymentMethods ev = Some pms"
    and "handleBtcpayWebhook req ev s = (out, s')"
  shows "\<exists>ds es. donations s' = donations s @ ds \<and> pointHistory s' = pointHistory s @ es
           \<and> (\<forall>d \<in> set ds. \<exists>pm \<in> set pms. amount pm \<noteq> 0
                 \<and> (\<exists>p. leg_start b (expiry ev) pm = Create_donation (d_data d) p))
           \<and> (\<forall>en \<in> set es. \<exists>d \<in> set ds. d_id d = donationId en)
           \<and> (out = Responded 200 (Json_success True) \<longrightarrow>
                 length ds = length (filter (\<lambda>pm. amount pm \<noteq> 0) pms))
           \<and> (out = Responded 200 (Json_success True) \<longrightarrow>
                 (\<forall>p q. (pms = [p, q] \<or> pms = [q, p]) \<and> amount p = 0 \<and> amount q \<noteq> 0 \<longrightarrow>
                    (\<exists>d pts. ds = [d]
                       \<and> leg_start b (expiry ev) q = Create_donation (d_data d) pts)))
           \<and> (schedule ev = sequential (length pms) \<longrightarrow>
                 out = Responded 200 (Json_success True))"
proof -
  from invoice_settled_handler [OF assms] obtain sts where
    len: "length sts = length pms" and inv: "legs_inv b (expiry ev) pms s sts s'"
    and out: "out = (if Rejected \<in> set sts then Threw
                    else if list_all (\<lambda>st. st = Resolved) sts
                    then Responded 200 (Json_success True) else Awaiting)"
    by blast
  from inv obtain ds es where
    d: "donations s' = donations s @ ds" and h: "pointHistory s' = pointHistory s @ es"
    and prov: "\<forall>d \<in> set ds. \<exists>pm \<in> set pms. amount pm \<noteq> 0
               \<and> (\<exists>p. leg_start b (expiry ev) pm = Create_donation (d_data d) p)"
    and link: "\<forall>en \<in> set es. \<exists>d \<in> set ds. entry_of d en"
    and lo: "count_where made_lo (zip pms sts) \<le> length ds"
    and hi: "length ds \<le> count_where made_hi (zip pms sts)"
    unfolding legs_inv_def by blast
  have link': "\<forall>en \<in> set es. \<exists>d \<in> set ds. d_id d = donationId en"
    using link by (auto simp: entry_of_def)
  have cnt: "length ds = length (filter (\<lambda>pm. amount pm \<noteq> 0) pms)"
    if "out = Responded 200 (Json_success True)"
  proof -
    from that out have "list_all (\<lambda>st. st = Resolved) sts" by (auto split: if_splits)
    from count_all_resolved [OF len [symmetric] this] lo hi show ?thesis by simp
  qed
  have two: "\<forall>p q. (pms = [p, q] \<or> pms = [q, p]) \<and> amount p = 0 \<and> amount q \<noteq> 0 \<longrightarrow>
                    (\<exists>d pts. ds = [d]
                       \<and> leg_start b (expiry ev) q = Create_donation (d_data d) pts)"
    if ok: "out = Responded 200 (Json_success True)"
  proof (intro allI impI)
    fix p q
    assume pq: "(pms = [p, q] \<or> pms = [q, p]) \<and> amount p = 0 \<and> amount q \<noteq> 0"
    with cnt [OF ok] have "length ds = 1" by auto
    then obtain d where ds: "ds = [d]" by (cases ds) auto
    with prov obtain pm pts where "pm \<in> set pms" "amount pm \<noteq> 0"
      "leg_start b (expiry ev) pm = Create_donation (d_data d) pts" by auto
    with pq have "leg_start b (expiry ev) q = Create_donation (d_data d) pts" by auto
    with ds show "\<exists>d pts. ds = [d]
                       \<and> leg_start b (expiry ev) q = Create_donation (d_data d) pts" by blast
  qed
  have seq: "out = Responded 200 (Json_success True)"
    if "schedule ev = sequential (length pms)"
    using sequential_responds [OF assms(1-7) that, of s] assms(8) by simp
  from cnt have cnt': "out = Responded 200 (Json_success True) \<longrightarrow>
      length ds = length (filter (\<lambda>pm. amount pm \<noteq> 0) pms)" by (rule impI)
  from two have two': "out = Responded 200 (Json_success True) \<longrightarrow>
      (\<forall>p q. (pms = [p, q] \<or> pms = [q, p]) \<and> amount p = 0 \<and> amount q \<noteq> 0 \<longrightarrow>
         (\<exists>d pts. ds = [d]
            \<and> leg_start b (expiry ev) q = Create_donation (d_data d) pts))" by (rule impI)
  from seq have seq': "schedule ev = sequential (length pms) \<longrightarrow>
      out = Responded 200 (Json_success True)" by (rule impI)
  show ?thesis
    using d h prov link' cnt' two' seq'
    by (intro exI [of _ ds] exI [of _ es] conjI) assumption+
qed

text \<open>Two payment methods, the first of amount zero: one donation.\<close>

theorem zero_amount_legs_witness:
  "fst (handleBtcpayWebhook sample_request
     (sample_env (sample_body ''InvoiceSettled'')
        [\<lparr>pm_cryptoCode = ''BTC'', rate = 30000, amount = 0\<rparr>,
         \<lparr>pm_cryptoCode = ''XMR'', rate = 150, amount = 2\<rparr>]
        [Complete 0, Complete 1, Complete 1, Complete 1]) empty_db)
     = Responded 200 (Json_success True)
   \<and> length (donations (snd (handleBtcpayWebhook sample_request
     (sample_env (sample_body ''InvoiceSettled'')
        [\<lparr>pm_cryptoCode = ''BTC'', rate = 30000, amount = 0\<rparr>,
         \<lparr>pm_cryptoCode = ''XMR'', rate = 150, amount = 2\<rparr>]
        [Complete 0, Complete 1, Complete 1, Complete 1]) empty_db))) = 1"
proof -
  let ?pms = "[\<lparr>pm_cryptoCode = ''BTC'', rate = 30000, amount = 0\<rparr>,
         \<lparr>pm_cryptoCode = ''XMR'', rate = 150, amount = 2\<rparr>]"
  let ?ev = "sample_env (sample_body ''InvoiceSettled'') ?pms
        [Complete 0, Complete 1, Complete 1, Complete 1]"
  let ?r = "handleBtcpayWebhook sample_request ?ev empty_db"
  have out: "fst ?r = Responded 200 (Json_success True)" by code_simp
  have run: "?r = (fst ?r, snd ?r)" by simp
  from zero_amount_legs_skipped [OF sample_verified(1-4) sample_verified(6)
      sample_not_skipped(1) sample_verified(5) run]
  have "\<exists>ds. donations (snd ?r) = donations empty_db @ ds
          \<and> (fst ?r = Responded 200 (Json_success True) \<longrightarrow>
                length ds = length (filter (\<lambda>pm. amount pm \<noteq> 0) ?pms))"
    by (elim exE conjE) (intro exI conjI, assumption+)
  with out show ?thesis by (auto simp: empty_db_def)
qed

section \<open>Donation and points entry\<close>

text \<open>
  C7, as amended. The donation and the points entry of a leg are two separate writes, the
  donation first. In every state the handler can leave the store in, whatever the order in
  which the operations complete or fail, each points entry written has its donation: a
  donation written in the same run with the entry's identifier, points, user and scope.
  The converse is not promised.
\<close>

theorem points_entry_after_donation:
  assumes "req_method req = ''POST''"
    and "btcpay_sig req = Single sig"
    and "parsed ev = Some b"
    and "incomingSigHash sig = Some (expectedSigHash ev)"
    and "event_type b = ''InvoiceSettled''"
    and "staticGeneratedForApi (body_metadata b) \<noteq> ''true''"
    and "paymentMethods ev = Some pms"
    and "handleBtcpayWebhook req ev s = (out, s')"
  shows "\<exists>ds es. donations s' = donations s @ ds \<and> pointHistory s' = pointHistory s @ es
           \<and> (\<forall>en \<in> set es. \<exists>d \<in> set ds. entry_of d en)"
proof -
  from invoice_settled_handler [OF assms] obtain sts where
    "legs_inv b (expiry ev) pms s sts s'" by blast
  then show ?thesis unfolding legs_inv_def by blast
qed

text \<open>A run of two legs in which the second fails after its donation: the entry of the
  first has its donation.\<close>

theorem points_entry_after_donation_witness:
  "pointHistory (snd (handleBtcpayWebhook sample_request
     (sample_env (sample_body ''InvoiceSettled'')
        [\<lparr>pm_cryptoCode = ''BTC'', rate = 30000, amount = 1 / 2\<rparr>,
         \<lparr>pm_cryptoCode = ''XMR'', rate = 150, amount = 2\<rparr>]
        [Complete 0, Complete 1, Complete 0, Fail 1, Complete 0]) empty_db)) \<noteq> []
   \<and> (\<exists>ds es.
        donations (snd (handleBtcpayWebhook sample_request
          (sample_env (sample_body ''InvoiceSettled'')
            [\<lparr>pm_cryptoCode = ''BTC'', rate = 30000, amount = 1 / 2\<rparr>,
             \<lparr>pm_cryptoCode = ''XMR'', rate = 150, amount = 2\<rparr>]
            [Complete 0, Complete 1, Complete 0, Fail 1, Complete 0]) empty_db)) = ds
        \<and> pointHistory (snd (handleBtcpayWebhook sample_request
          (sample_env (sample_body ''InvoiceSettled'')
            [\<lparr>pm_cryptoCode = ''BTC'', rate = 30000, amount = 1 / 2\<rparr>,
             \<lparr>pm_cryptoCode = ''XMR'', rate = 150, amount = 2\<rparr>]
            [Complete 0, Complete 1, Complete 0, Fail 1, Complete 0]) empty_db)) = es
        \<and> (\<forall>en \<in> set es. \<exists>d \<in> set ds. entry_of d en))"
proof -
  let ?pms = "[\<lparr>pm_cryptoCode = ''BTC'', rate = 30000, amount = 1 / 2\<rparr>,
         \<lparr>pm_cryptoCode = ''XMR'', rate = 150, amount = 2\<rparr>]"
  let ?ev = "sample_env (sample_body ''InvoiceSettled'') ?pms
        [Complete 0, Complete 1, Complete 0, Fail 1, Complete 0]"
  let ?r = "handleBtcpayWebhook sample_request ?ev empty_db"
  have ne: "pointHistory (snd ?r) \<noteq> []" by code_simp
  have run: "?r = (fst ?r, snd ?r)" by simp
  from points_entry_after_donation [OF sample_verified(1-4) sample_verified(6)
      sample_not_skipped(1) sample_verified(5) run]
  have "\<exists>ds es. donations (snd ?r) = donations empty_db @ ds
          \<and> pointHistory (snd ?r) = pointHistory empty_db @ es
          \<and> (\<forall>en \<in> set es. \<exists>d \<in> set ds. entry_of d en)" .
  with ne show ?thesis by (simp add: empty_db_def)
qed

text \<open>
  C7 as stated fails when the write of the points entry fails: the donation, with its 1000
  points, stays in the store without a points entry.
\<close>

theorem donation_without_points_entry:
  "handleBtcpayWebhook sample_request
     (sample_env (sample_body ''InvoiceSettled'')
        [\<lparr>pm_cryptoCode = ''BTC'', rate = 1, amount = 10\<rparr>]
        [Complete 0, Complete 0, Fail 0]) empty_db
   = (Threw,
      \<lparr>donations =
         [\<lparr>d_id = 0, d_data =
            \<lparr>d_userId = Some ''user'', btcPayInvoiceId = ''invoice'',
             d_projectName = ''Project'', d_projectSlug = ''project'', d_fundSlug = ''fund'',
             cryptoCode = ''BTC'', grossCryptoAmount = 10, grossFiatAmount = 10,
             netCryptoAmount = 9, netFiatAmount = 9,
             pointsAdded = Some 1000, membershipExpiresAt = Some 365\<rparr>\<rparr>],
       pointHistory = [],
       next_id = 1\<rparr>)"
  by code_simp

text \<open>
  C8, as amended. For a verified full-settlement event that is not skipped, whatever the
  order in which the operations complete or fail: each donation written is that of a
  payment method of nonzero amount, a different leg for each donation; each points entry
  written belongs to a donation written, a different donation for each entry; a points entry is written only
  if \<^verbatim>\<open>givePointsBack\<close> is \<^verbatim>\<open>'true'\<close> and the metadata carries a non-empty \<^verbatim>\<open>userId\<close>; and
  every leg of nonzero amount whose callback has resolved has its donation, and that
  donation has a points entry if and only if \<^verbatim>\<open>givePointsBack\<close> is \<^verbatim>\<open>'true'\<close> and the
  \<^verbatim>\<open>userId\<close> is non-empty, whether or not the points are positive. When the handler answers
  200, every leg has resolved. Under the sequential schedule the handler does answer 200.
\<close>

theorem points_entry_iff_flag_and_user:
  assumes "req_method req = ''POST''"
    and "btcpay_sig req = Single sig"
    and "parsed ev = Some b"
    and "incomingSigHash sig = Some (expectedSigHash ev)"
    and "event_type b = ''InvoiceSettled''"
    and "staticGeneratedForApi (body_metadata b) \<noteq> ''true''"
    and "paymentMethods ev = Some pms"
    and "handleBtcpayWebhook req ev s = (out, s')"
  shows "\<exists>sts ds es who.
           run_legs (body_metadata b) (schedule ev) (map (leg_start b (expiry ev)) pms) s
             = (sts, s')
           \<and> donations s' = donations s @ ds \<and> pointHistory s' = pointHistory s @ es
           \<and> length who = length ds \<and> distinct who
           \<and> distinct (map d_id ds) \<and> distinct (map donationId es)
           \<and> (\<forall>k < length ds. who ! k < length pms \<and> amount (pms ! (who ! k)) \<noteq> 0
                 \<and> (\<exists>p. leg_start b (expiry ev) (pms ! (who ! k))
                        = Create_donation (d_data (ds ! k)) p))
           \<and> (\<forall>en \<in> set es. \<exists>d \<in> set ds. entry_of d en)
           \<and> (es \<noteq> [] \<longrightarrow> givePointsBack (body_metadata b) = ''true''
                 \<and> (\<exists>u. userId (body_metadata b) = Some u \<and> u \<noteq> []))
           \<and> (\<forall>i < length pms. sts ! i = Resolved \<and> amount (pms ! i) \<noteq> 0 \<longrightarrow>
                 (\<exists>k < length ds. who ! k = i
                    \<and> ((\<exists>en \<in> set es. entry_of (ds ! k) en)
                       = (givePointsBack (body_metadata b) = ''true''
                          \<and> (\<exists>u. userId (body_metadata b) = Some u \<and> u \<noteq> [])))))
           \<and> (out = Responded 200 (Json_success True) \<longrightarrow>
                 (\<forall>i < length pms. sts ! i = Resolved)
                 \<and> length ds = length (filter (\<lambda>pm. amount pm \<noteq> 0) pms)
                 \<and> length es =
                     (if givePointsBack (body_metadata b) = ''true''
                         \<and> (\<exists>u. userId (body_metadata b) = Some u \<and> u \<noteq> [])
                      then length ds else 0))
           \<and> (schedule ev = sequential (length pms) \<longrightarrow>
                 out = Responded 200 (Json_success True))"
proof -
  let ?m = "body_metadata b"
  let ?due = "givePointsBack ?m = ''true'' \<and> (\<exists>u. userId ?m = Some u \<and> u \<noteq> [])"
  from invoice_settled_handler [OF assms] obtain sts where
    run: "run_legs ?m (schedule ev) (map (leg_start b (expiry ev)) pms) s = (sts, s')"
    and len: "length sts = length pms" and inv: "legs_inv b (expiry ev) pms s sts s'"
    and out: "out = (if Rejected \<in> set sts then Threw
                    else if list_all (\<lambda>st. st = Resolved) sts
                    then Responded 200 (Json_success True) else Awaiting)"
    by blast
  from inv obtain ds es where
    d: "donations s' = donations s @ ds" and h: "pointHistory s' = pointHistory s @ es"
    and link: "\<forall>en \<in> set es. \<exists>d \<in> set ds. entry_of d en"
    and lo: "count_where made_lo (zip pms sts) \<le> length ds"
    and hi: "length ds \<le> count_where made_hi (zip pms sts)"
    and pts: "if points_due ?m
            then count_where wrote_lo (zip pms sts) \<le> length es
                 \<and> length es \<le> count_where wrote_hi (zip pms sts)
            else es = []"
    unfolding legs_inv_def by blast
  from run_legs_ids_inv [OF ids_inv_initial run] d h
  have ids: "map d_id ds = [next_id s..<next_id s']" and dist_es: "distinct (map donationId es)"
    unfolding ids_inv_def by auto
  from ids have dist_ds: "distinct (map d_id ds)" by simp
  from run_legs_pair_inv [OF pair_inv_initial run] d h
  obtain who where p: "paired b (expiry ev) pms who ds es sts"
    unfolding pair_inv_def by auto
  note pd = pairedD [OF p]
  have due: "points_due ?m = ?due" by (rule points_due_iff)
  have legs: "\<forall>k < length ds. who ! k < length pms \<and> amount (pms ! (who ! k)) \<noteq> 0
                 \<and> (\<exists>p. leg_start b (expiry ev) (pms ! (who ! k))
                        = Create_donation (d_data (ds ! k)) p)"
    using pd(1,4,5,6) by simp
  have only: "es \<noteq> [] \<longrightarrow> ?due"
    using pts unfolding due by (auto split: if_splits)
  have each: "\<forall>i < length pms. sts ! i = Resolved \<and> amount (pms ! i) \<noteq> 0 \<longrightarrow>
                 (\<exists>k < length ds. who ! k = i
                    \<and> ((\<exists>en \<in> set es. entry_of (ds ! k) en) = ?due))"
  proof (intro allI impI)
    fix i assume i: "i < length pms" and r: "sts ! i = Resolved \<and> amount (pms ! i) \<noteq> 0"
    have "i \<in> set who"
    proof (rule ccontr)
      assume "i \<notin> set who"
      from pd(8) [OF i this] r show False by simp
    qed
    then obtain k where k: "k < length who" "who ! k = i" by (auto simp: in_set_conv_nth)
    with pd(1) have kd: "k < length ds" by simp
    have "(\<exists>en \<in> set es. entry_of (ds ! k) en) = ?due"
    proof (cases "points_due ?m")
      case True
      from pd(7) [OF k(1)] k(2) r True have "d_id (ds ! k) \<in> donationId ` set es" by simp
      then obtain en where en: "en \<in> set es" "donationId en = d_id (ds ! k)" by auto
      with link obtain d' where d': "d' \<in> set ds" "entry_of d' en" by blast
      then have "d_id d' = d_id (ds ! k)" using en(2) by (simp add: entry_of_def)
      moreover have "inj_on d_id (set ds)" using dist_ds by (simp add: distinct_map)
      ultimately have "d' = ds ! k" using d'(1) kd by (auto dest: inj_onD)
      with d'(2) en(1) True show ?thesis unfolding due [symmetric] by blast
    next
      case False
      with pts have "es = []" by simp
      with False show ?thesis unfolding due [symmetric] by simp
    qed
    with kd k(2) show "\<exists>k < length ds. who ! k = i
                    \<and> ((\<exists>en \<in> set es. entry_of (ds ! k) en) = ?due)" by blast
  qed
  have ok: "out = Responded 200 (Json_success True) \<longrightarrow>
                 (\<forall>i < length pms. sts ! i = Resolved)
                 \<and> length ds = length (filter (\<lambda>pm. amount pm \<noteq> 0) pms)
                 \<and> length es = (if ?due then length ds else 0)"
  proof
    assume "out = Responded 200 (Json_success True)"
    with out have res: "list_all (\<lambda>st. st = Resolved) sts" by (auto split: if_splits)
    note cnt = count_all_resolved [OF len [symmetric] res]
    have nd: "length ds = length (filter (\<lambda>pm. amount pm \<noteq> 0) pms)"
      using cnt lo hi by simp
    have ne: "length es = (if ?due then length ds else 0)"
      using pts cnt nd unfolding due [symmetric] by (auto split: if_splits)
    from res len have "\<forall>i < length pms. sts ! i = Resolved"
      by (simp add: list_all_length)
    with nd ne show "(\<forall>i < length pms. sts ! i = Resolved)
                 \<and> length ds = length (filter (\<lambda>pm. amount pm \<noteq> 0) pms)
                 \<and> length es = (if ?due then length ds else 0)" by blast
  qed
  have seq: "schedule ev = sequential (length pms) \<longrightarrow> out = Responded 200 (Json_success True)"
    using sequential_responds [OF assms(1-7), of s] assms(8) by auto
  show ?thesis
    using run d h pd(1,2) dist_ds dist_es legs link only each ok seq
    by (intro exI [of _ sts] exI [of _ ds] exI [of _ es] exI [of _ who] conjI) assumption+
qed

text \<open>With the flag and a user: one donation, one entry. With the flag and no user: one
  donation, no entry.\<close>

theorem points_entry_iff_witness:
  "length (donations (snd (handleBtcpayWebhook sample_request
     (sample_env (sample_body ''InvoiceSettled'')
        [\<lparr>pm_cryptoCode = ''BTC'', rate = 30000, amount = 1 / 2\<rparr>]
        [Complete 0, Complete 0, Complete 0]) empty_db))) = 1
   \<and> length (pointHistory (snd (handleBtcpayWebhook sample_request
     (sample_env (sample_body ''InvoiceSettled'')
        [\<lparr>pm_cryptoCode = ''BTC'', rate = 30000, amount = 1 / 2\<rparr>]
        [Complete 0, Complete 0, Complete 0]) empty_db))) = 1
   \<and> length (donations (snd (handleBtcpayWebhook sample_request
     (sample_env ((sample_body ''InvoiceSettled'')
          \<lparr>body_metadata := sample_metadata\<lparr>userId := None\<rparr>\<rparr>)
        [\<lparr>pm_cryptoCode = ''BTC'', rate = 30000, amount = 1 / 2\<rparr>]
        [Complete 0]) empty_db))) = 1
   \<and> length (pointHistory (snd (handleBtcpayWebhook sample_request
     (sample_env ((sample_body ''InvoiceSettled'')
          \<lparr>body_metadata := sample_metadata\<lparr>userId := None\<rparr>\<rparr>)
        [\<lparr>pm_cryptoCode = ''BTC'', rate = 30000, amount = 1 / 2\<rparr>]
        [Complete 0]) empty_db))) = 0"
proof -
  let ?pms = "[\<lparr>pm_cryptoCode = ''BTC'', rate = 30000, amount = 1 / 2\<rparr>]"
  let ?ev = "sample_env (sample_body ''InvoiceSettled'') ?pms
        [Complete 0, Complete 0, Complete 0]"
  let ?r = "handleBtcpayWebhook sample_request ?ev empty_db"
  let ?b = "(sample_body ''InvoiceSettled'')\<lparr>body_metadata := sample_metadata\<lparr>userId := None\<rparr>\<rparr>"
  let ?ev' = "sample_env ?b ?pms [Complete 0]"
  let ?r' = "handleBtcpayWebhook sample_request ?ev' empty_db"
  have seq: "schedule ?ev = sequential (length ?pms)"
    by (simp add: sample_env_def sequential_def)
  have run: "?r = (fst ?r, snd ?r)" by simp
  have out': "fst ?r' = Responded 200 (Json_success True)" by code_simp
  have run': "?r' = (fst ?r', snd ?r')" by simp
  have b: "event_type ?b = ''InvoiceSettled''"
    "staticGeneratedForApi (body_metadata ?b) \<noteq> ''true''"
    "userId (body_metadata ?b) = None"
    by (simp_all add: sample_body_def sample_metadata_def)
  have m: "givePointsBack (body_metadata (sample_body ''InvoiceSettled'')) = ''true''"
    "userId (body_metadata (sample_body ''InvoiceSettled'')) = Some ''user''"
    by (simp_all add: sample_body_def sample_metadata_def)
  from points_entry_iff_flag_and_user [OF sample_verified(1-4) sample_verified(6)
      sample_not_skipped(1) sample_verified(5) run]
  have "\<exists>ds es. donations (snd ?r) = donations empty_db @ ds
          \<and> pointHistory (snd ?r) = pointHistory empty_db @ es
          \<and> (fst ?r = Responded 200 (Json_success True) \<longrightarrow>
                 (\<forall>i < length ?pms. True)
                 \<and> length ds = length (filter (\<lambda>pm. amount pm \<noteq> 0) ?pms)
                 \<and> length es =
                     (if givePointsBack (body_metadata (sample_body ''InvoiceSettled'')) = ''true''
                         \<and> (\<exists>u. userId (body_metadata (sample_body ''InvoiceSettled'')) = Some u
                                \<and> u \<noteq> [])
                      then length ds else 0))
          \<and> (schedule ?ev = sequential (length ?pms) \<longrightarrow>
                 fst ?r = Responded 200 (Json_success True))"
    by (elim exE conjE) (intro exI conjI, assumption, assumption, blast, assumption)
  with seq m have 1: "length (donations (snd ?r)) = 1 \<and> length (pointHistory (snd ?r)) = 1"
    by (auto simp: empty_db_def)
  from points_entry_iff_flag_and_user [OF sample_verified(1-4) b(1,2) sample_verified(5) run']
  have "\<exists>ds es. donations (snd ?r') = donations empty_db @ ds
          \<and> pointHistory (snd ?r') = pointHistory empty_db @ es
          \<and> (es \<noteq> [] \<longrightarrow> givePointsBack (body_metadata ?b) = ''true''
                 \<and> (\<exists>u. userId (body_metadata ?b) = Some u \<and> u \<noteq> []))
          \<and> (fst ?r' = Responded 200 (Json_success True) \<longrightarrow>
                 (\<forall>i < length ?pms. True)
                 \<and> length ds = length (filter (\<lambda>pm. amount pm \<noteq> 0) ?pms)
                 \<and> True)"
    by (elim exE conjE) (intro exI conjI, assumption, assumption, assumption, blast)
  with out' b(3) have 2: "length (donations (snd ?r')) = 1 \<and> length (pointHistory (snd ?r')) = 0"
    by (auto simp: empty_db_def)
  from 1 2 show ?thesis by simp
qed

text \<open>
  C8 as stated fails for a payment method whose fiat amount rounds to 0.00: with the flag
  set and a user present, a points entry is written although no points are awarded
  (\<^verbatim>\<open>pointsAdded\<close> is 0).
\<close>

theorem points_entry_with_zero_points:
  "handleBtcpayWebhook sample_request
     (sample_env (sample_body ''InvoiceSettled'')
        [\<lparr>pm_cryptoCode = ''BTC'', rate = 4, amount = 1 / 1024\<rparr>]
        [Complete 0, Complete 0, Complete 0]) empty_db
   = (Responded 200 (Json_success True),
      \<lparr>donations =
         [\<lparr>d_id = 0, d_data =
            \<lparr>d_userId = Some ''user'', btcPayInvoiceId = ''invoice'',
             d_projectName = ''Project'', d_projectSlug = ''project'', d_fundSlug = ''fund'',
             cryptoCode = ''BTC'', grossCryptoAmount = 0, grossFiatAmount = 0,
             netCryptoAmount = 0, netFiatAmount = 0,
             pointsAdded = Some 0, membershipExpiresAt = Some 365\<rparr>\<rparr>],
       pointHistory =
         [\<lparr>donationId = 0, ph_userId = ''user'', ph_fundSlug = ''fund'',
           ph_projectSlug = ''project'', ph_pointsAdded = 0, pointsBalance = 0\<rparr>],
       next_id = 1\<rparr>)"
  by code_simp

section \<open>The running balance\<close>

text \<open>The entry a leg writes adds its points to the balance its lookup found, whatever was
  written between the lookup and the write.\<close>

lemma lookup_then_write:
  assumes "leg_step m (Find_last u did p) s = (st, s1)"
    and "leg_step m st s2 = (st', s3)"
  shows "s1 = s \<and> st' = Resolved
         \<and> pointHistory s3 = pointHistory s2 @
              [\<lparr>donationId = did, ph_userId = u, ph_fundSlug = fundSlug m,
                ph_projectSlug = projectSlug m, ph_pointsAdded = p,
                pointsBalance =
                  (case findFirst u (fundSlug m) (projectSlug m) s of
                     None \<Rightarrow> 0 | Some e \<Rightarrow> pointsBalance e) + p\<rparr>]"
  using assms by (auto simp: Let_def pointHistory_create_def)

text \<open>
  C1. Each new entry should have the balance of the most recent entry created before it in
  its scope, plus its own points. The store holds one entry, of balance 250; two payment
  methods award 2000 and 3000 points. When both lookups complete before either entry is
  written, the entry written last (2000 points) has the balance 2250, while the most recent
  entry created before it has the balance 3250.
\<close>

theorem stale_prior_balance:
  "handleBtcpayWebhook sample_request
     (sample_env (sample_body ''InvoiceSettled'')
        [\<lparr>pm_cryptoCode = ''BTC'', rate = 1, amount = 20\<rparr>,
         \<lparr>pm_cryptoCode = ''XMR'', rate = 1, amount = 30\<rparr>]
        [Complete 1, Complete 0, Complete 1, Complete 0, Complete 1, Complete 0])
     \<lparr>donations = [],
      pointHistory =
        [\<lparr>donationId = 41, ph_userId = ''user'', ph_fundSlug = ''fund'',
          ph_projectSlug = ''project'', ph_pointsAdded = 250, pointsBalance = 250\<rparr>],
      next_id = 42\<rparr>
   = (Responded 200 (Json_success True),
      \<lparr>donations =
         [\<lparr>d_id = 42, d_data =
            \<lparr>d_userId = Some ''user'', btcPayInvoiceId = ''invoice'',
             d_projectName = ''Project'', d_projectSlug = ''project'', d_fundSlug = ''fund'',
             cryptoCode = ''XMR'', grossCryptoAmount = 30, grossFiatAmount = 30,
             netCryptoAmount = 27, netFiatAmount = 27,
             pointsAdded = Some 3000, membershipExpiresAt = Some 365\<rparr>\<rparr>,
          \<lparr>d_id = 43, d_data =
            \<lparr>d_userId = Some ''user'', btcPayInvoiceId = ''invoice'',
             d_projectName = ''Project'', d_projectSlug = ''project'', d_fundSlug = ''fund'',
             cryptoCode = ''BTC'', grossCryptoAmount = 20, grossFiatAmount = 20,
             netCryptoAmount = 18, netFiatAmount = 18,
             pointsAdded = Some 2000, membershipExpiresAt = Some 365\<rparr>\<rparr>],
       pointHistory =
         [\<lparr>donationId = 41, ph_userId = ''user'', ph_fundSlug = ''fund'',
           ph_projectSlug = ''project'', ph_pointsAdded = 250, pointsBalance = 250\<rparr>,
          \<lparr>donationId = 42, ph_userId = ''user'', ph_fundSlug = ''fund'',
           ph_projectSlug = ''project'', ph_pointsAdded = 3000, pointsBalance = 3250\<rparr>,
          \<lparr>donationId = 43, ph_userId = ''user'', ph_fundSlug = ''fund'',
           ph_projectSlug = ''project'', ph_pointsAdded = 2000, pointsBalance = 2250\<rparr>],
       next_id = 44\<rparr>)"
  by code_simp

text \<open>
  C9. Two point-awarding legs of one event, in one scope, on an empty store. When the
  operations of the two legs alternate, both lookups find no prior entry: the handler
  answers 200 and the final balance is 500, not the sum 1500 of both awards.
\<close>

theorem concurrent_legs_final_balance:
  "handleBtcpayWebhook sample_request
     (sample_env (sample_body ''InvoiceSettled'')
        [\<lparr>pm_cryptoCode = ''BTC'', rate = 1, amount = 10\<rparr>,
         \<lparr>pm_cryptoCode = ''XMR'', rate = 1, amount = 5\<rparr>]
        [Complete 0, Complete 1, Complete 0, Complete 1, Complete 0, Complete 1]) empty_db
   = (Responded 200 (Json_success True),
      \<lparr>donations =
         [\<lparr>d_id = 0, d_data =
            \<lparr>d_userId = Some ''user'', btcPayInvoiceId = ''invoice'',
             d_projectName = ''Project'', d_projectSlug = ''project'', d_fundSlug = ''fund'',
             cryptoCode = ''BTC'', grossCryptoAmount = 10, grossFiatAmount = 10,
             netCryptoAmount = 9, netFiatAmount = 9,
             pointsAdded = Some 1000, membershipExpiresAt = Some 365\<rparr>\<rparr>,
          \<lparr>d_id = 1, d_data =
            \<lparr>d_userId = Some ''user'', btcPayInvoiceId = ''invoice'',
             d_projectName = ''Project'', d_projectSlug = ''project'', d_fundSlug = ''fund'',
             cryptoCode = ''XMR'', grossCryptoAmount = 5, grossFiatAmount = 5,
             netCryptoAmount = 9 / 2, netFiatAmount = 9 / 2,
             pointsAdded = Some 500, membershipExpiresAt = Some 365\<rparr>\<rparr>],
       pointHistory =
         [\<lparr>donationId = 0, ph_userId = ''user'', ph_fundSlug = ''fund'',
           ph_projectSlug = ''project'', ph_pointsAdded = 1000, pointsBalance = 1000\<rparr>,
          \<lparr>donationId = 1, ph_userId = ''user'', ph_fundSlug = ''fund'',
           ph_projectSlug = ''project'', ph_pointsAdded = 500, pointsBalance = 500\<rparr>],
       next_id = 2\<rparr>)"
  by code_simp

end
